theory Spec2Isabelle
  imports Main "HOL-Library.Word" "HOL-Library.Multiset"
begin

section \<open>The elastic index read context of the execution engine\<close>

text \<open>
  A shallow embedding of \<^verbatim>\<open>src/ee/storage/ElasticIndexReadContext.cpp\<close>.
  The context drives a two-phase protocol over a hash range of a table: the read
  phase streams every indexed tuple of the range into output buffers, the clear phase
  deletes the streamed tuples and their index entries.

  The member functions of the class are embedded as functions that take the context
  and return the updated one. The classes the file only uses (the table surgeon, the
  range iterator of the elastic index, the output stream processor, the string helpers)
  are declared in headers outside the file; they are modelled here from their
  description in the specification, each under a comment that says so.
\<close>

subsection \<open>Data\<close>

type_synonym int64 = "64 word"

text \<open>
  The stream kinds. The file names two enumerators; every other enumerator of
  \<^verbatim>\<open>TableStreamType\<close> is carried by its integer value.
\<close>

datatype TableStreamType =
    TABLE_STREAM_ELASTIC_INDEX_READ
  | TABLE_STREAM_ELASTIC_INDEX_CLEAR
  | TABLE_STREAM_OTHER int

datatype ActivationReturnCode =
    ACTIVATION_SUCCEEDED
  | ACTIVATION_FAILED
  | ACTIVATION_UNSUPPORTED

text \<open>
  What ends a call without a return value: the exception of
  \<^verbatim>\<open>throwFatalException\<close>, and the dereference of a null \<^verbatim>\<open>m_iter\<close>.
\<close>

datatype fatal =
    UnexpectedStreamType TableStreamType
  | NullIteratorDereference

text \<open>
  Modelled from the spec: \<^verbatim>\<open>TableTuple\<close> is declared outside the file. A tuple of
  the table is known by its storage address and by the hash of its partitioning column,
  the key of the elastic index.
\<close>

record TableTuple =
  t_address :: nat
  t_hash :: int64

text \<open>
  Modelled from the spec: the hash range is the pair of two 64-bit signed integers that
  the call \<^verbatim>\<open>ElasticIndexHashRange(from, to)\<close> builds.
\<close>

datatype ElasticIndexHashRange = ElasticIndexHashRange int64 int64

subsection \<open>The range predicate parser\<close>

text \<open>
  Modelled from the spec: \<^verbatim>\<open>MiscUtil::splitToTwoString\<close> is not part of the file.
  The specification speaks of the colon-delimited parts of the string, so the model cuts
  the string at every occurrence of the delimiter; the parser then asks for exactly two
  parts.
\<close>

fun splitToTwoString :: "string \<Rightarrow> char \<Rightarrow> string list" where
  "splitToTwoString [] d = [[]]"
| "splitToTwoString (c # cs) d =
     (if c = d then [] # splitToTwoString cs d
      else (case splitToTwoString cs d of
              [] \<Rightarrow> [[c]]
            | p # ps \<Rightarrow> (c # p) # ps))"

definition is_digit :: "char \<Rightarrow> bool" where
  "is_digit c = (48 \<le> (of_char c :: nat) \<and> (of_char c :: nat) \<le> 57)"

fun decimal_value :: "nat \<Rightarrow> string \<Rightarrow> nat" where
  "decimal_value acc [] = acc"
| "decimal_value acc (c # cs) = decimal_value (10 * acc + ((of_char c :: nat) - 48)) cs"

text \<open>
  Modelled from the spec: \<^verbatim>\<open>boost::lexical_cast<int64_t>\<close> is a library function.
  The whole string must be a decimal 64-bit signed integer: an optional sign, at least one
  digit, nothing else, and a value between \<open>- 2 ^ 63\<close> and \<open>2 ^ 63 - 1\<close>.
  \<open>None\<close> stands for the exception \<^verbatim>\<open>bad_lexical_cast\<close>.
\<close>

definition lexical_cast_int64 :: "string \<Rightarrow> int64 option" where
  "lexical_cast_int64 s =
     (let neg = (s \<noteq> [] \<and> hd s = CHR ''-'');
          ds = (if s \<noteq> [] \<and> (hd s = CHR ''-'' \<or> hd s = CHR ''+'') then tl s else s)
      in if ds = [] \<or> \<not> list_all is_digit ds then None
         else let v = (if neg then - int (decimal_value 0 ds) else int (decimal_value 0 ds))
              in if - (2 ^ 63) \<le> v \<and> v < 2 ^ 63 then Some (word_of_int v) else None)"

text \<open>
  \<^verbatim>\<open>parseHashRange\<close> returns \<^verbatim>\<open>false\<close> and leaves \<^verbatim>\<open>rangeOut\<close> alone, or
  returns \<^verbatim>\<open>true\<close> with the range stored in it: \<open>None\<close>, or \<open>Some\<close> of the range.
  The exception of a failed conversion is caught inside the function.
\<close>

definition parseHashRange :: "string list \<Rightarrow> ElasticIndexHashRange option" where
  "parseHashRange predicateStrings =
     (if length predicateStrings \<noteq> 1 then None
      else let rangeStrings = splitToTwoString (predicateStrings ! 0) (CHR '':'')
           in if length rangeStrings = 2
              then (case lexical_cast_int64 (rangeStrings ! 0) of
                      None \<Rightarrow> None
                    | Some low \<Rightarrow>
                        (case lexical_cast_int64 (rangeStrings ! 1) of
                           None \<Rightarrow> None
                         | Some high \<Rightarrow> Some (ElasticIndexHashRange low high)))
              else None)"

subsection \<open>The range iterator of the elastic index\<close>

text \<open>
  Modelled from the spec: the hash range is the half-open interval from \<open>low\<close>
  (included) to \<open>high\<close> (excluded) of signed 64-bit hash values.
\<close>

fun in_range :: "ElasticIndexHashRange \<Rightarrow> int64 \<Rightarrow> bool" where
  "in_range (ElasticIndexHashRange low high) h = (sint low \<le> sint h \<and> sint h < sint high)"

text \<open>
  Modelled from the spec: \<^verbatim>\<open>ElasticIndexTupleRangeIterator\<close> is declared outside the
  file. It iterates forward over the index entries whose hash lies in its range, in the
  order of the index; \<^verbatim>\<open>next\<close> hands out the entry under the cursor and advances, or
  reports that none is left; \<^verbatim>\<open>reset\<close> puts the cursor back to the start of the range;
  \<^verbatim>\<open>erase\<close> removes the entries of the range from the index.
\<close>

record ElasticIndexTupleRangeIterator =
  it_range :: ElasticIndexHashRange
  it_entries :: "TableTuple list"
  it_pos :: nat

definition it_next ::
  "ElasticIndexTupleRangeIterator \<Rightarrow> TableTuple option \<times> ElasticIndexTupleRangeIterator" where
  "it_next it =
     (if it_pos it < length (it_entries it)
      then (Some (it_entries it ! it_pos it), it\<lparr>it_pos := it_pos it + 1\<rparr>)
      else (None, it))"

definition it_reset :: "ElasticIndexTupleRangeIterator \<Rightarrow> ElasticIndexTupleRangeIterator" where
  "it_reset it = it\<lparr>it_pos := 0\<rparr>"

definition it_erase ::
  "ElasticIndexTupleRangeIterator \<Rightarrow> TableTuple list
     \<Rightarrow> ElasticIndexTupleRangeIterator \<times> TableTuple list" where
  "it_erase it index =
     (it\<lparr>it_entries := [], it_pos := 0\<rparr>,
      filter (\<lambda>t. \<not> in_range (it_range it) (t_hash t)) index)"

subsection \<open>The table surgeon\<close>

text \<open>
  The calls that change the table or the index, in the order in which the storage layer
  receives them.
\<close>

datatype storage_call =
    BulkDeleteTokenAcquired
  | BulkDeleteTokenReleased
  | IteratorReset
  | IteratorErase ElasticIndexHashRange
  | DeleteTuple TableTuple

text \<open>
  Modelled from the spec: \<^verbatim>\<open>PersistentTableSurgeon\<close> is declared outside the file.
  It gives access to one table: the rows of the table, its elastic index (the indexed
  tuples in index order) with the two flags the activation asks for, the number of bulk
  delete tokens in scope, and the record of the calls received.
\<close>

record PersistentTableSurgeon =
  s_hasIndex :: bool
  s_isIndexingComplete :: bool
  s_index :: "TableTuple list"
  s_table :: "TableTuple list"
  s_bulkDeleteTokens :: nat
  s_calls :: "storage_call list"

definition getIndexTupleRangeIterator ::
  "PersistentTableSurgeon \<Rightarrow> ElasticIndexHashRange \<Rightarrow> ElasticIndexTupleRangeIterator" where
  "getIndexTupleRangeIterator s hashRange =
     \<lparr>it_range = hashRange,
      it_entries = filter (\<lambda>t. in_range hashRange (t_hash t)) (s_index s),
      it_pos = 0\<rparr>"

definition getBulkDeleteToken :: "PersistentTableSurgeon \<Rightarrow> PersistentTableSurgeon" where
  "getBulkDeleteToken s =
     s\<lparr>s_bulkDeleteTokens := s_bulkDeleteTokens s + 1,
       s_calls := s_calls s @ [BulkDeleteTokenAcquired]\<rparr>"

definition releaseBulkDeleteToken :: "PersistentTableSurgeon \<Rightarrow> PersistentTableSurgeon" where
  "releaseBulkDeleteToken s =
     s\<lparr>s_bulkDeleteTokens := s_bulkDeleteTokens s - 1,
       s_calls := s_calls s @ [BulkDeleteTokenReleased]\<rparr>"

definition deleteTuple :: "TableTuple \<Rightarrow> PersistentTableSurgeon \<Rightarrow> PersistentTableSurgeon" where
  "deleteTuple t s =
     s\<lparr>s_table := removeAll t (s_table s),
       s_calls := s_calls s @ [DeleteTuple t]\<rparr>"

subsection \<open>The output streams\<close>

text \<open>
  Modelled from the spec: \<^verbatim>\<open>TupleOutputStream\<close> and
  \<^verbatim>\<open>TupleOutputStreamProcessor\<close> are declared outside the file. A stream is a buffer
  of fixed capacity, counted in rows; its write position is the number of rows written.
  The write primitive writes the row and reports whether the buffer is now full. The
  processor is the list of the caller's streams; it opens, writes to and closes each of
  them, and yields as soon as one of them is full.
\<close>

record TupleOutputStream =
  os_capacity :: nat
  os_rows :: "TableTuple list"
  os_opens :: nat
  os_closes :: nat

type_synonym TupleOutputStreamProcessor = "TupleOutputStream list"

definition position :: "TupleOutputStream \<Rightarrow> nat" where
  "position s = length (os_rows s)"

definition os_open :: "TupleOutputStreamProcessor \<Rightarrow> TupleOutputStreamProcessor" where
  "os_open outs = map (\<lambda>s. s\<lparr>os_opens := os_opens s + 1\<rparr>) outs"

definition os_close :: "TupleOutputStreamProcessor \<Rightarrow> TupleOutputStreamProcessor" where
  "os_close outs = map (\<lambda>s. s\<lparr>os_closes := os_closes s + 1\<rparr>) outs"

definition writeRow ::
  "TupleOutputStreamProcessor \<Rightarrow> TableTuple \<Rightarrow> bool \<times> TupleOutputStreamProcessor" where
  "writeRow outs tuple =
     (let outs' = map (\<lambda>s. s\<lparr>os_rows := os_rows s @ [tuple]\<rparr>) outs
      in (list_ex (\<lambda>s. os_capacity s \<le> length (os_rows s)) outs', outs'))"

text \<open>The cast \<^verbatim>\<open>(int)\<close> of a position: the low 32 bits, read as two's complement.\<close>

definition int_cast :: "nat \<Rightarrow> int" where
  "int_cast n = sint (word_of_nat n :: 32 word)"

subsection \<open>The context\<close>

text \<open>
  The members the file reads and writes. \<^verbatim>\<open>m_surgeon\<close> is a reference to the
  surgeon of the table; the record holds the state of the object referred to.
  \<^verbatim>\<open>m_iter\<close> is the owned pointer to the iterator, \<open>None\<close> while it is null.
\<close>

record ElasticIndexReadContext =
  m_surgeon :: PersistentTableSurgeon
  m_partitionId :: int
  m_predicateStrings :: "string list"
  m_iter :: "ElasticIndexTupleRangeIterator option"
  m_materialized :: bool

text \<open>The constructor.\<close>

definition newElasticIndexReadContext ::
  "PersistentTableSurgeon \<Rightarrow> int \<Rightarrow> string list \<Rightarrow> ElasticIndexReadContext" where
  "newElasticIndexReadContext surgeon partitionId predicateStrings =
     \<lparr>m_surgeon = surgeon,
      m_partitionId = partitionId,
      m_predicateStrings = predicateStrings,
      m_iter = None,
      m_materialized = False\<rparr>"

subsection \<open>Clean up after consuming indexed tuples\<close>

text \<open>
  The loop \<^verbatim>\<open>while (m_iter->next(tuple)) m_surgeon.deleteTuple(tuple);\<close>
\<close>

function deleteLoop ::
  "ElasticIndexTupleRangeIterator \<Rightarrow> PersistentTableSurgeon
     \<Rightarrow> ElasticIndexTupleRangeIterator \<times> PersistentTableSurgeon" where
  "deleteLoop it s =
     (case it_next it of
        (None, it1) \<Rightarrow> (it1, s)
      | (Some tuple, it1) \<Rightarrow> deleteLoop it1 (deleteTuple tuple s))"
  by pat_completeness auto
termination
  by (relation "measure (\<lambda>(it, s). length (it_entries it) - it_pos it)")
     (auto simp: it_next_def split: if_splits)

text \<open>
  \<^verbatim>\<open>deleteStreamedTuples\<close>: the token is taken first and released when the function
  leaves its scope; \<^verbatim>\<open>m_iter\<close> is dereferenced without a check.
\<close>

definition deleteStreamedTuples :: "ElasticIndexReadContext \<Rightarrow> fatal + ElasticIndexReadContext" where
  "deleteStreamedTuples c =
     (let s0 = getBulkDeleteToken (m_surgeon c)
      in case m_iter c of
           None \<Rightarrow> Inl NullIteratorDereference
         | Some it \<Rightarrow>
             (let it1 = it_reset it;
                  s1 = s0\<lparr>s_calls := s_calls s0 @ [IteratorReset]\<rparr>;
                  (it2, s2) = deleteLoop it1 s1;
                  (it3, index3) = it_erase it2 (s_index s2);
                  s3 = s2\<lparr>s_index := index3,
                          s_calls := s_calls s2 @ [IteratorErase (it_range it2)]\<rparr>;
                  s4 = releaseBulkDeleteToken s3
              in Inr (c\<lparr>m_surgeon := s4, m_iter := Some it3\<rparr>)))"

subsection \<open>Activation and deactivation\<close>

definition handleActivation ::
  "TableStreamType \<Rightarrow> bool \<Rightarrow> ElasticIndexReadContext
     \<Rightarrow> fatal + (ActivationReturnCode \<times> ElasticIndexReadContext)" where
  "handleActivation streamType reactivate c =
     (if reactivate \<and> streamType = TABLE_STREAM_ELASTIC_INDEX_READ
      then Inr (ACTIVATION_FAILED, c)
      else if \<not> s_hasIndex (m_surgeon c) \<or> \<not> s_isIndexingComplete (m_surgeon c)
      then Inr (ACTIVATION_FAILED, c)
      else if streamType = TABLE_STREAM_ELASTIC_INDEX_READ
      then (case parseHashRange (m_predicateStrings c) of
              None \<Rightarrow> Inr (ACTIVATION_FAILED, c)
            | Some hashRange \<Rightarrow>
                Inr (ACTIVATION_SUCCEEDED,
                     c\<lparr>m_iter := Some (getIndexTupleRangeIterator (m_surgeon c) hashRange)\<rparr>))
      else if streamType = TABLE_STREAM_ELASTIC_INDEX_CLEAR
      then (if \<not> m_materialized c then Inr (ACTIVATION_FAILED, c)
            else (case deleteStreamedTuples c of
                    Inl e \<Rightarrow> Inl e
                  | Inr c' \<Rightarrow> Inr (ACTIVATION_SUCCEEDED, c')))
      else Inr (ACTIVATION_UNSUPPORTED, c))"

definition handleDeactivation :: "TableStreamType \<Rightarrow> fatal + bool" where
  "handleDeactivation streamType =
     (if streamType = TABLE_STREAM_ELASTIC_INDEX_READ then Inr True
      else if streamType = TABLE_STREAM_ELASTIC_INDEX_CLEAR then Inr False
      else Inl (UnexpectedStreamType streamType))"

subsection \<open>Serialising to the output stream\<close>

text \<open>
  The loop \<^verbatim>\<open>while (!yield)\<close> of \<^verbatim>\<open>handleStreamMore\<close>, entered with the tuple
  fetched last. It returns \<^verbatim>\<open>remaining\<close>, which is 1 on entry and becomes 0 when
  \<^verbatim>\<open>next\<close> finds no tuple.
\<close>

function streamLoop ::
  "ElasticIndexTupleRangeIterator \<Rightarrow> TupleOutputStreamProcessor \<Rightarrow> TableTuple
     \<Rightarrow> int \<times> ElasticIndexTupleRangeIterator \<times> TupleOutputStreamProcessor" where
  "streamLoop it outs tuple =
     (case writeRow outs tuple of
        (True, outs1) \<Rightarrow> (1, it, outs1)
      | (False, outs1) \<Rightarrow>
          (case it_next it of
             (None, it1) \<Rightarrow> (0, it1, outs1)
           | (Some tuple1, it1) \<Rightarrow> streamLoop it1 outs1 tuple1))"
  by pat_completeness auto
termination
  by (relation "measure (\<lambda>(it, outs, tuple). length (it_entries it) - it_pos it)")
     (auto simp: it_next_def split: if_splits)

text \<open>
  \<^verbatim>\<open>handleStreamMore\<close> returns \<^verbatim>\<open>remaining\<close>; the context, the output streams and
  \<^verbatim>\<open>retPositions\<close> are returned as the call leaves them.
\<close>

definition handleStreamMore ::
  "ElasticIndexReadContext \<Rightarrow> TupleOutputStreamProcessor \<Rightarrow> int list
     \<Rightarrow> int \<times> ElasticIndexReadContext \<times> TupleOutputStreamProcessor \<times> int list" where
  "handleStreamMore c outputStreams retPositions =
     (case m_iter c of
        None \<Rightarrow> (- 1, c, outputStreams, retPositions)
      | Some it \<Rightarrow>
          if length outputStreams \<noteq> 1 then (- 1, c, outputStreams, retPositions)
          else
            (let (remaining, it', outs') =
                   (case it_next it of
                      (None, it1) \<Rightarrow> (0, it1, outputStreams)
                    | (Some tuple, it1) \<Rightarrow>
                        (let (r, it2, outs2) = streamLoop it1 (os_open outputStreams) tuple
                         in (r, it2, os_close outs2)));
                 retPositions' = retPositions @ [int_cast (position (outs' ! 0))];
                 c' = c\<lparr>m_iter := Some it'\<rparr>;
                 c'' = (if remaining \<le> 0 then c'\<lparr>m_materialized := True\<rparr> else c')
             in (remaining, c'', outs', retPositions')))"

subsection \<open>Callers\<close>

text \<open>The iterator has handed out its last entry.\<close>

definition exhausted :: "ElasticIndexTupleRangeIterator \<Rightarrow> bool" where
  "exhausted it = (length (it_entries it) \<le> it_pos it)"

text \<open>
  A caller that drains the context: it calls \<^verbatim>\<open>handleStreamMore\<close> with one buffer
  of its own after the other, as long as the result is positive. It returns the results
  of the calls, the rows each call wrote into its buffer, the context and the positions.
\<close>

fun drain ::
  "ElasticIndexReadContext \<Rightarrow> TupleOutputStream list \<Rightarrow> int list
     \<Rightarrow> int list \<times> TableTuple list list \<times> ElasticIndexReadContext \<times> int list" where
  "drain c [] rp = ([], [], c, rp)"
| "drain c (b # bs) rp =
     (case handleStreamMore c [b] rp of
        (r, c', outs', rp') \<Rightarrow>
          (let written = drop (length (os_rows b)) (os_rows (outs' ! 0))
           in if 0 < r
              then (case drain c' bs rp' of
                      (rs, ws, c'', rp'') \<Rightarrow> (r # rs, written # ws, c'', rp''))
              else ([r], [written], c', rp')))"

text \<open>
  The operations of the context, and the contexts a sequence of operations goes through.
  A call that ends fatally has no context after it, and the sequence stops there.
\<close>

datatype operation =
    Activate TableStreamType bool
  | Deactivate TableStreamType
  | StreamMore TupleOutputStreamProcessor "int list"
  | DeleteStreamedTuples

fun step :: "operation \<Rightarrow> ElasticIndexReadContext \<Rightarrow> ElasticIndexReadContext option" where
  "step (Activate streamType reactivate) c =
     (case handleActivation streamType reactivate c of
        Inl e \<Rightarrow> None
      | Inr (code, c') \<Rightarrow> Some c')"
| "step (Deactivate streamType) c =
     (case handleDeactivation streamType of
        Inl e \<Rightarrow> None
      | Inr keep \<Rightarrow> Some c)"
| "step (StreamMore outputStreams retPositions) c =
     (case handleStreamMore c outputStreams retPositions of
        (remaining, c', outs', retPositions') \<Rightarrow> Some c')"
| "step DeleteStreamedTuples c =
     (case deleteStreamedTuples c of
        Inl e \<Rightarrow> None
      | Inr c' \<Rightarrow> Some c')"

fun run :: "ElasticIndexReadContext \<Rightarrow> operation list \<Rightarrow> ElasticIndexReadContext list" where
  "run c [] = [c]"
| "run c (x # xs) =
     c # (case step x c of None \<Rightarrow> [] | Some c' \<Rightarrow> run c' xs)"

text \<open>
  A small table for the examples: three rows with the hashes 12, 15 and 30, all indexed,
  and a context for the range from 10 to 20.
\<close>

definition example_rows :: "TableTuple list" where
  "example_rows =
     [\<lparr>t_address = 1, t_hash = 12\<rparr>,
      \<lparr>t_address = 2, t_hash = 15\<rparr>,
      \<lparr>t_address = 3, t_hash = 30\<rparr>]"

definition example_surgeon :: PersistentTableSurgeon where
  "example_surgeon =
     \<lparr>s_hasIndex = True, s_isIndexingComplete = True,
      s_index = example_rows, s_table = example_rows,
      s_bulkDeleteTokens = 0, s_calls = []\<rparr>"

definition example_context :: ElasticIndexReadContext where
  "example_context = newElasticIndexReadContext example_surgeon 0 [''10:20'']"

definition example_iterator :: "nat \<Rightarrow> ElasticIndexTupleRangeIterator" where
  "example_iterator pos =
     \<lparr>it_range = ElasticIndexHashRange 10 20,
      it_entries = [\<lparr>t_address = 1, t_hash = 12\<rparr>, \<lparr>t_address = 2, t_hash = 15\<rparr>],
      it_pos = pos\<rparr>"

definition example_buffer :: "nat \<Rightarrow> TupleOutputStream" where
  "example_buffer capacity =
     \<lparr>os_capacity = capacity, os_rows = [], os_opens = 0, os_closes = 0\<rparr>"

section \<open>Properties\<close>

lemmas parse_simps = parseHashRange_def lexical_cast_int64_def is_digit_def Let_def

lemmas example_simps = example_context_def example_surgeon_def example_rows_def
  example_iterator_def example_buffer_def newElasticIndexReadContext_def

subsection \<open>The range predicate parser\<close>

lemma split_no_delimiter: "d \<notin> set s \<Longrightarrow> splitToTwoString s d = [s]"
  by (induction s) (auto split: list.splits)

lemma split_at_first_delimiter:
  "d \<notin> set a \<Longrightarrow> splitToTwoString (a @ d # b) d = a # splitToTwoString b d"
  by (induction a) (auto split: list.splits)

lemma lexical_cast_no_colon: "lexical_cast_int64 s = Some v \<Longrightarrow> CHR '':'' \<notin> set s"
  unfolding lexical_cast_int64_def Let_def
  by (cases s) (auto simp: list_all_iff is_digit_def split: if_splits)

text \<open>
  C7. \<^verbatim>\<open>parseHashRange\<close> on a list of exactly one string \<open>low:high\<close>, both parts
  decimal 64-bit signed integers, succeeds with the range \<open>(low, high)\<close>, whatever the
  order of the two bounds. It fails, as a returned value, when the list does not have
  exactly one entry, when the string does not split into exactly two parts at the colons,
  and when one of the two parts is not a 64-bit signed integer.
\<close>

theorem parseHashRange_contract:
  "(lexical_cast_int64 low_s = Some low \<and> lexical_cast_int64 high_s = Some high
      \<longrightarrow> parseHashRange [low_s @ CHR '':'' # high_s] = Some (ElasticIndexHashRange low high))
   \<and> (length ps \<noteq> 1 \<longrightarrow> parseHashRange ps = None)
   \<and> (length (splitToTwoString p (CHR '':'')) \<noteq> 2 \<longrightarrow> parseHashRange [p] = None)
   \<and> (splitToTwoString q (CHR '':'') = [a, b]
        \<and> (lexical_cast_int64 a = None \<or> lexical_cast_int64 b = None)
      \<longrightarrow> parseHashRange [q] = None)"
proof (intro conjI impI)
  assume h: "lexical_cast_int64 low_s = Some low \<and> lexical_cast_int64 high_s = Some high"
  then have "CHR '':'' \<notin> set low_s" "CHR '':'' \<notin> set high_s"
    by (auto dest: lexical_cast_no_colon)
  then have "splitToTwoString (low_s @ CHR '':'' # high_s) (CHR '':'') = [low_s, high_s]"
    by (simp add: split_at_first_delimiter split_no_delimiter)
  with h show "parseHashRange [low_s @ CHR '':'' # high_s] = Some (ElasticIndexHashRange low high)"
    by (simp add: parseHashRange_def)
next
  assume "length ps \<noteq> 1"
  then show "parseHashRange ps = None" by (simp add: parseHashRange_def)
next
  assume "length (splitToTwoString p (CHR '':'')) \<noteq> 2"
  then show "parseHashRange [p] = None" by (simp add: parseHashRange_def)
next
  assume "splitToTwoString q (CHR '':'') = [a, b]
        \<and> (lexical_cast_int64 a = None \<or> lexical_cast_int64 b = None)"
  then show "parseHashRange [q] = None"
    by (auto simp: parseHashRange_def split: option.splits)
qed

theorem parseHashRange_contract_witness:
  "parseHashRange [''20:10''] = Some (ElasticIndexHashRange 20 10)
   \<and> parseHashRange [''10:20'', ''30:40''] = None
   \<and> parseHashRange [''10:20:30''] = None
   \<and> parseHashRange [''abc:20''] = None"
proof -
  have a: "lexical_cast_int64 ''20'' = Some 20 \<and> lexical_cast_int64 ''10'' = Some 10"
    by (simp add: parse_simps)
  have b: "length [''10:20'', ''30:40''] \<noteq> 1" by simp
  have c: "length (splitToTwoString ''10:20:30'' (CHR '':'')) \<noteq> 2" by simp
  have d: "splitToTwoString ''abc:20'' (CHR '':'') = [''abc'', ''20'']
        \<and> (lexical_cast_int64 ''abc'' = None \<or> lexical_cast_int64 ''20'' = None)"
    by (simp add: parse_simps)
  from a b c d
    parseHashRange_contract [of "''20''" 20 "''10''" 10 "[''10:20'', ''30:40'']" "''10:20:30''"
       "''abc:20''" "''abc''" "''20''"]
  show ?thesis by simp
qed

subsection \<open>Deactivation\<close>

text \<open>
  C9. \<^verbatim>\<open>handleDeactivation\<close> returns true for the read stream, false for the clear
  stream, and for every other stream kind it ends with the fatal exception instead of
  returning a value.
\<close>

theorem handleDeactivation_contract:
  "handleDeactivation TABLE_STREAM_ELASTIC_INDEX_READ = Inr True
   \<and> handleDeactivation TABLE_STREAM_ELASTIC_INDEX_CLEAR = Inr False
   \<and> (streamType \<noteq> TABLE_STREAM_ELASTIC_INDEX_READ
        \<and> streamType \<noteq> TABLE_STREAM_ELASTIC_INDEX_CLEAR
      \<longrightarrow> handleDeactivation streamType = Inl (UnexpectedStreamType streamType))"
  by (simp add: handleDeactivation_def)

theorem handleDeactivation_contract_witness:
  "handleDeactivation (TABLE_STREAM_OTHER 0) = Inl (UnexpectedStreamType (TABLE_STREAM_OTHER 0))"
  using handleDeactivation_contract [of "TABLE_STREAM_OTHER 0"] by simp

subsection \<open>The streaming loop\<close>

declare streamLoop.simps [simp del]
declare deleteLoop.simps [simp del]

lemma writeRow_single:
  "writeRow [b] t = (os_capacity b \<le> Suc (length (os_rows b)), [b\<lparr>os_rows := os_rows b @ [t]\<rparr>])"
  by (simp add: writeRow_def)

lemma take_drop_step:
  "p < length e \<Longrightarrow> e ! p # take n (drop (Suc p) e) = take (Suc n) (drop p e)"
  by (simp add: Cons_nth_drop_Suc [symmetric])

lemma streamLoop_result:
  assumes "it_pos it \<le> length (it_entries it)"
  shows "\<exists>n r. streamLoop it [b] t =
           (r, it\<lparr>it_pos := it_pos it + n\<rparr>,
            [b\<lparr>os_rows := os_rows b @ t # take n (drop (it_pos it) (it_entries it))\<rparr>])
         \<and> it_pos it + n \<le> length (it_entries it)
         \<and> ((r = 0 \<and> it_pos it + n = length (it_entries it)
              \<and> \<not> os_capacity b \<le> Suc (length (os_rows b) + n))
             \<or> (r = 1 \<and> os_capacity b \<le> Suc (length (os_rows b) + n)))"
  using assms
proof (induction it "[b]" t arbitrary: b rule: streamLoop.induct)
  case (1 it t)
  let ?b1 = "b\<lparr>os_rows := os_rows b @ [t]\<rparr>"
  show ?case
  proof (cases "os_capacity b \<le> Suc (length (os_rows b))")
    case True
    then have "streamLoop it [b] t = (1, it, [?b1])"
      by (subst streamLoop.simps) (simp add: writeRow_single)
    with True 1(2) show ?thesis
      by (intro exI [of _ 0] exI [of _ 1]) simp
  next
    case notfull: False
    show ?thesis
    proof (cases "it_pos it < length (it_entries it)")
      case False
      with notfull have "streamLoop it [b] t = (0, it, [?b1])"
        by (subst streamLoop.simps) (simp add: writeRow_single it_next_def)
      with False notfull 1(2) show ?thesis
        by (intro exI [of _ 0] exI [of _ 0]) simp
    next
      case True
      let ?t1 = "it_entries it ! it_pos it"
      let ?it1 = "it\<lparr>it_pos := it_pos it + 1\<rparr>"
      have step: "streamLoop it [b] t = streamLoop ?it1 [?b1] ?t1"
        using notfull True
        by (subst streamLoop.simps) (simp add: writeRow_single it_next_def)
      have "it_pos ?it1 \<le> length (it_entries ?it1)" using True by simp
      have "\<exists>n r. streamLoop ?it1 [?b1] ?t1 =
           (r, ?it1\<lparr>it_pos := it_pos ?it1 + n\<rparr>,
            [?b1\<lparr>os_rows := os_rows ?b1 @ ?t1 # take n (drop (it_pos ?it1) (it_entries ?it1))\<rparr>])
         \<and> it_pos ?it1 + n \<le> length (it_entries ?it1)
         \<and> ((r = 0 \<and> it_pos ?it1 + n = length (it_entries ?it1)
              \<and> \<not> os_capacity ?b1 \<le> Suc (length (os_rows ?b1) + n))
             \<or> (r = 1 \<and> os_capacity ?b1 \<le> Suc (length (os_rows ?b1) + n)))"
        by (rule 1(1) [of False ?b1 "Some ?t1" ?it1 ?t1])
           (use notfull True in \<open>simp_all add: writeRow_single it_next_def\<close>)
      then obtain n r where
        res: "streamLoop ?it1 [?b1] ?t1 =
           (r, ?it1\<lparr>it_pos := it_pos ?it1 + n\<rparr>,
            [?b1\<lparr>os_rows := os_rows ?b1 @ ?t1 # take n (drop (it_pos ?it1) (it_entries ?it1))\<rparr>])"
        and bound: "it_pos ?it1 + n \<le> length (it_entries ?it1)"
        and out: "(r = 0 \<and> it_pos ?it1 + n = length (it_entries ?it1)
              \<and> \<not> os_capacity ?b1 \<le> Suc (length (os_rows ?b1) + n))
             \<or> (r = 1 \<and> os_capacity ?b1 \<le> Suc (length (os_rows ?b1) + n))"
        by blast
      show ?thesis
        apply (rule exI [of _ "Suc n"])
        apply (rule exI [of _ r])
        using res bound out True
        by (simp add: step take_drop_step)
    qed
  qed
qed



lemma handleStreamMore_error:
  "m_iter c = None \<or> length outs \<noteq> 1 \<Longrightarrow> handleStreamMore c outs rp = (- 1, c, outs, rp)"
  by (auto simp: handleStreamMore_def split: option.splits)

lemma handleStreamMore_exhausted:
  assumes "m_iter c = Some it" "length (it_entries it) \<le> it_pos it"
  shows "handleStreamMore c [b] rp =
           (0, c\<lparr>m_materialized := True\<rparr>, [b], rp @ [int_cast (position b)])"
proof -
  have "c\<lparr>m_iter := Some it, m_materialized := True\<rparr> = c\<lparr>m_materialized := True\<rparr>"
    using assms(1) by simp
  then show ?thesis
    using assms by (simp add: handleStreamMore_def it_next_def)
qed

lemma handleStreamMore_stream:
  assumes "m_iter c = Some it" "it_pos it < length (it_entries it)"
  shows "\<exists>n r b'. handleStreamMore c [b] rp =
           (r, c\<lparr>m_iter := Some (it\<lparr>it_pos := it_pos it + n\<rparr>),
                 m_materialized := (m_materialized c \<or> r = 0)\<rparr>,
            [b'], rp @ [int_cast (position b')])
         \<and> b' = b\<lparr>os_rows := os_rows b @ take n (drop (it_pos it) (it_entries it)),
                  os_opens := os_opens b + 1, os_closes := os_closes b + 1\<rparr>
         \<and> 0 < n \<and> it_pos it + n \<le> length (it_entries it)
         \<and> ((r = 0 \<and> it_pos it + n = length (it_entries it)
              \<and> \<not> os_capacity b \<le> length (os_rows b) + n)
             \<or> (r = 1 \<and> os_capacity b \<le> length (os_rows b) + n))"
proof -
  let ?t = "it_entries it ! it_pos it"
  let ?it1 = "it\<lparr>it_pos := it_pos it + 1\<rparr>"
  let ?b1 = "b\<lparr>os_opens := os_opens b + 1\<rparr>"
  have "it_pos ?it1 \<le> length (it_entries ?it1)" using assms(2) by simp
  from streamLoop_result [OF this, of ?b1 ?t]
  obtain n r where
    res: "streamLoop ?it1 [?b1] ?t =
           (r, ?it1\<lparr>it_pos := it_pos ?it1 + n\<rparr>,
            [?b1\<lparr>os_rows := os_rows ?b1 @ ?t # take n (drop (it_pos ?it1) (it_entries ?it1))\<rparr>])"
    and bound: "it_pos ?it1 + n \<le> length (it_entries ?it1)"
    and out: "(r = 0 \<and> it_pos ?it1 + n = length (it_entries ?it1)
              \<and> \<not> os_capacity ?b1 \<le> Suc (length (os_rows ?b1) + n))
             \<or> (r = 1 \<and> os_capacity ?b1 \<le> Suc (length (os_rows ?b1) + n))"
    by blast
  have rows: "?t # take n (drop (Suc (it_pos it)) (it_entries it))
                = take (Suc n) (drop (it_pos it) (it_entries it))"
    using assms(2) by (rule take_drop_step)
  show ?thesis
    apply (rule exI [of _ "Suc n"])
    apply (rule exI [of _ r])
    using res bound out assms rows
    by (auto simp: handleStreamMore_def it_next_def os_open_def os_close_def position_def)
qed

lemma streamLoop_exact:
  assumes "it_pos it \<le> length (it_entries it)"
  shows "streamLoop it [b] t =
           ((if os_capacity b
                  \<le> Suc (length (os_rows b)
                         + min (os_capacity b - Suc (length (os_rows b)))
                               (length (it_entries it) - it_pos it))
             then 1 else 0),
            it\<lparr>it_pos := it_pos it
                    + min (os_capacity b - Suc (length (os_rows b)))
                          (length (it_entries it) - it_pos it)\<rparr>,
            [b\<lparr>os_rows := os_rows b @ t #
                   take (min (os_capacity b - Suc (length (os_rows b)))
                             (length (it_entries it) - it_pos it))
                        (drop (it_pos it) (it_entries it))\<rparr>])"
  using assms
proof (induction it "[b]" t arbitrary: b rule: streamLoop.induct)
  case (1 it t)
  let ?b1 = "b\<lparr>os_rows := os_rows b @ [t]\<rparr>"
  show ?case
  proof (cases "os_capacity b \<le> Suc (length (os_rows b))")
    case True
    then have "streamLoop it [b] t = (1, it, [?b1])"
      by (subst streamLoop.simps) (simp add: writeRow_single)
    with True show ?thesis by simp
  next
    case notfull: False
    show ?thesis
    proof (cases "it_pos it < length (it_entries it)")
      case False
      with notfull have "streamLoop it [b] t = (0, it, [?b1])"
        by (subst streamLoop.simps) (simp add: writeRow_single it_next_def)
      with False notfull show ?thesis by simp
    next
      case True
      let ?t1 = "it_entries it ! it_pos it"
      let ?it1 = "it\<lparr>it_pos := it_pos it + 1\<rparr>"
      let ?n1 = "min (os_capacity ?b1 - Suc (length (os_rows ?b1)))
                     (length (it_entries ?it1) - it_pos ?it1)"
      have step: "streamLoop it [b] t = streamLoop ?it1 [?b1] ?t1"
        using notfull True
        by (subst streamLoop.simps) (simp add: writeRow_single it_next_def)
      have ih: "streamLoop ?it1 [?b1] ?t1 =
           ((if os_capacity ?b1 \<le> Suc (length (os_rows ?b1) + ?n1) then 1 else 0),
            ?it1\<lparr>it_pos := it_pos ?it1 + ?n1\<rparr>,
            [?b1\<lparr>os_rows := os_rows ?b1 @ ?t1 # take ?n1 (drop (it_pos ?it1) (it_entries ?it1))\<rparr>])"
        by (rule 1(1) [of False ?b1 "Some ?t1" ?it1 ?t1])
           (use notfull True in \<open>simp_all add: writeRow_single it_next_def\<close>)
      have n: "Suc ?n1 = min (os_capacity b - Suc (length (os_rows b)))
                            (length (it_entries it) - it_pos it)"
        using notfull True by simp
      have rows: "?t1 # take ?n1 (drop (Suc (it_pos it)) (it_entries it))
                = take (Suc ?n1) (drop (it_pos it) (it_entries it))"
        using True by (rule take_drop_step)
      show ?thesis
        unfolding step ih n [symmetric]
        using rows by simp
    qed
  qed
qed

lemma handleStreamMore_exact:
  assumes "m_iter c = Some it" "it_pos it < length (it_entries it)"
  shows "handleStreamMore c [b] rp =
    (let n = min (max 1 (os_capacity b - length (os_rows b)))
                 (length (it_entries it) - it_pos it);
         r = (if os_capacity b \<le> length (os_rows b) + n then 1 else 0);
         b' = b\<lparr>os_rows := os_rows b @ take n (drop (it_pos it) (it_entries it)),
                os_opens := os_opens b + 1, os_closes := os_closes b + 1\<rparr>
     in (r, c\<lparr>m_iter := Some (it\<lparr>it_pos := it_pos it + n\<rparr>),
              m_materialized := (m_materialized c \<or> r = 0)\<rparr>,
         [b'], rp @ [int_cast (position b')]))"
proof -
  let ?t = "it_entries it ! it_pos it"
  let ?it1 = "it\<lparr>it_pos := it_pos it + 1\<rparr>"
  let ?b1 = "b\<lparr>os_opens := os_opens b + 1\<rparr>"
  let ?n1 = "min (os_capacity ?b1 - Suc (length (os_rows ?b1)))
                 (length (it_entries ?it1) - it_pos ?it1)"
  have "it_pos ?it1 \<le> length (it_entries ?it1)" using assms(2) by simp
  note loop = streamLoop_exact [OF this, of ?b1 ?t]
  have n: "Suc ?n1 = min (max 1 (os_capacity b - length (os_rows b)))
                 (length (it_entries it) - it_pos it)"
    using assms(2) by (simp; arith)
  have rows: "?t # take ?n1 (drop (Suc (it_pos it)) (it_entries it))
                = take (Suc ?n1) (drop (it_pos it) (it_entries it))"
    using assms(2) by (rule take_drop_step)
  show ?thesis
    unfolding n [symmetric] Let_def
    using loop rows assms
    by (auto simp: handleStreamMore_def it_next_def os_open_def os_close_def position_def)
qed


lemma fills_within_rest:
  "0 < rest \<Longrightarrow>
   (cap \<le> l + min (max 1 (cap - l)) rest) = (cap \<le> l + (rest :: nat))"
  by arith

lemma int_cast_small: "n < 2 ^ 31 \<Longrightarrow> int_cast n = int n"
  unfolding int_cast_def
  by (simp add: signed_of_nat signed_take_bit_int_eq_self)

text \<open>The example context, activated and streamed into buffers of one row.\<close>

lemma example_activation:
  "handleActivation TABLE_STREAM_ELASTIC_INDEX_READ False example_context
    = Inr (ACTIVATION_SUCCEEDED, example_context\<lparr>m_iter := Some (example_iterator 0)\<rparr>)"
  by code_simp

lemma example_stream_1:
  "handleStreamMore (example_context\<lparr>m_iter := Some (example_iterator 0)\<rparr>) [example_buffer 1] []
   = (1, example_context\<lparr>m_iter := Some (example_iterator 1)\<rparr>,
      [\<lparr>os_capacity = 1, os_rows = [\<lparr>t_address = 1, t_hash = 12\<rparr>], os_opens = 1, os_closes = 1\<rparr>], [1])"
  by code_simp

lemma example_stream_3:
  "handleStreamMore (example_context\<lparr>m_iter := Some (example_iterator 2)\<rparr>) [example_buffer 1] [1, 1]
   = (0, example_context\<lparr>m_iter := Some (example_iterator 2), m_materialized := True\<rparr>,
      [example_buffer 1], [1, 1, 0])"
  by code_simp

lemma example_stream_all:
  "handleStreamMore (example_context\<lparr>m_iter := Some (example_iterator 0)\<rparr>) [example_buffer 5] []
   = (0, example_context\<lparr>m_iter := Some (example_iterator 2), m_materialized := True\<rparr>,
      [\<lparr>os_capacity = 5,
        os_rows = [\<lparr>t_address = 1, t_hash = 12\<rparr>, \<lparr>t_address = 2, t_hash = 15\<rparr>],
        os_opens = 1, os_closes = 1\<rparr>], [2])"
  by code_simp

lemma example_stream_boundary:
  "handleStreamMore (example_context\<lparr>m_iter := Some (example_iterator 0)\<rparr>) [example_buffer 2] []
   = (1, example_context\<lparr>m_iter := Some (example_iterator 2)\<rparr>,
      [\<lparr>os_capacity = 2,
        os_rows = [\<lparr>t_address = 1, t_hash = 12\<rparr>, \<lparr>t_address = 2, t_hash = 15\<rparr>],
        os_opens = 1, os_closes = 1\<rparr>], [2])"
  by code_simp

subsection \<open>Preconditions of streaming\<close>

text \<open>
  C8. When the iterator was never created, or the number of output streams is not
  exactly one, \<^verbatim>\<open>handleStreamMore\<close> returns -1 and changes nothing: the context (its
  iterator and its flag), the output streams and \<^verbatim>\<open>retPositions\<close> come back as they
  were passed.
\<close>

theorem handleStreamMore_precondition_error:
  "m_iter c = None \<or> length outputStreams \<noteq> 1
   \<Longrightarrow> handleStreamMore c outputStreams retPositions = (- 1, c, outputStreams, retPositions)"
  by (auto simp: handleStreamMore_def split: option.splits)

theorem handleStreamMore_precondition_error_witness:
  "handleStreamMore example_context [example_buffer 1] [] = (- 1, example_context, [example_buffer 1], [])
   \<and> handleStreamMore (example_context\<lparr>m_iter := Some (example_iterator 0)\<rparr>) [] [7]
       = (- 1, example_context\<lparr>m_iter := Some (example_iterator 0)\<rparr>, [], [7])
   \<and> handleStreamMore (example_context\<lparr>m_iter := Some (example_iterator 0)\<rparr>)
         [example_buffer 1, example_buffer 1] []
       = (- 1, example_context\<lparr>m_iter := Some (example_iterator 0)\<rparr>,
          [example_buffer 1, example_buffer 1], [])"
proof -
  have a: "m_iter example_context = None \<or> length [example_buffer 1] \<noteq> 1"
    by (simp add: example_simps)
  have b: "m_iter (example_context\<lparr>m_iter := Some (example_iterator 0)\<rparr>) = None
             \<or> length ([] :: TupleOutputStream list) \<noteq> 1"
    by simp
  have c: "m_iter (example_context\<lparr>m_iter := Some (example_iterator 0)\<rparr>) = None
             \<or> length [example_buffer 1, example_buffer 1] \<noteq> 1"
    by simp
  show ?thesis
    using handleStreamMore_precondition_error [OF a, of "[]"]
      handleStreamMore_precondition_error [OF b, of "[7]"]
      handleStreamMore_precondition_error [OF c, of "[]"]
    by simp
qed

subsection \<open>The result of streaming\<close>

text \<open>
  C4, as the code has it. Every call of \<^verbatim>\<open>handleStreamMore\<close> returns 1, 0 or -1.
  It returns -1 exactly on a precondition error, and then the context, the streams and
  \<^verbatim>\<open>retPositions\<close> are unchanged. Otherwise it returns 0 exactly when \<^verbatim>\<open>next\<close>
  finds no tuple during the call: the iterator is exhausted on entry, or the buffer still
  has room after the last remaining tuple was written. It returns 1 exactly when the
  buffer fills at or before the last remaining tuple, also when no tuple remains after the
  buffer has filled. The flag \<^verbatim>\<open>m_materialized\<close> is set exactly by a result of 0. The
  rows written are the next \<open>n\<close> entries of the iterator, where \<open>n\<close> is the room of the
  buffer (at least one row) cut at the number of remaining entries, and the iterator
  advances by \<open>n\<close>. After a result of 0 the iterator is exhausted, after a result of 1 the
  buffer is full, and tuples remaining after the call mean a result of 1. When streaming
  was attempted (no precondition error) the position of the single output stream, cast to
  \<^verbatim>\<open>int\<close>, is appended to \<^verbatim>\<open>retPositions\<close>, whatever the result; the cast is the
  position itself as long as the position is below \<open>2 ^ 31\<close>.
\<close>

theorem handleStreamMore_result_contract:
  assumes "handleStreamMore c outputStreams retPositions = (remaining, c', outs', retPositions')"
  shows "(remaining = 1 \<or> remaining = 0 \<or> remaining = - 1)
     \<and> ((remaining = - 1) = (m_iter c = None \<or> length outputStreams \<noteq> 1))
     \<and> (remaining = - 1 \<longrightarrow>
           c' = c \<and> outs' = outputStreams \<and> retPositions' = retPositions)
     \<and> (remaining \<noteq> - 1 \<longrightarrow>
           (\<exists>it b. m_iter c = Some it \<and> outputStreams = [b]
              \<and> (remaining = 0) =
                    (exhausted it
                     \<or> length (os_rows b) + (length (it_entries it) - it_pos it) < os_capacity b)
              \<and> (remaining = 1) =
                    (\<not> exhausted it
                     \<and> os_capacity b \<le> length (os_rows b) + (length (it_entries it) - it_pos it))
              \<and> (exhausted it \<longrightarrow> m_iter c' = Some it \<and> outs' = outputStreams)
              \<and> (\<not> exhausted it \<longrightarrow>
                    (let n = min (max 1 (os_capacity b - length (os_rows b)))
                                 (length (it_entries it) - it_pos it)
                     in m_iter c' = Some (it\<lparr>it_pos := it_pos it + n\<rparr>)
                        \<and> outs' = [b\<lparr>os_rows := os_rows b
                                                  @ take n (drop (it_pos it) (it_entries it)),
                                      os_opens := os_opens b + 1,
                                      os_closes := os_closes b + 1\<rparr>]))))
     \<and> m_materialized c' = (m_materialized c \<or> remaining = 0)
     \<and> (remaining = 0 \<longrightarrow> (\<exists>it'. m_iter c' = Some it' \<and> exhausted it'))
     \<and> (remaining = 1 \<longrightarrow> os_capacity (outs' ! 0) \<le> length (os_rows (outs' ! 0)))
     \<and> (length outputStreams = 1 \<and> (\<exists>it'. m_iter c' = Some it' \<and> \<not> exhausted it')
           \<longrightarrow> remaining = 1)
     \<and> (remaining \<noteq> - 1 \<longrightarrow>
           length outs' = 1
           \<and> retPositions' = retPositions @ [int_cast (position (outs' ! 0))]
           \<and> (position (outs' ! 0) < 2 ^ 31 \<longrightarrow>
                 retPositions' = retPositions @ [int (position (outs' ! 0))]))"
proof (cases "m_iter c = None \<or> length outputStreams \<noteq> 1")
  case True
  from handleStreamMore_error [OF this, of retPositions] assms True
  show ?thesis by auto
next
  case False
  then obtain it b where it: "m_iter c = Some it" and b: "outputStreams = [b]"
    by (cases outputStreams) auto
  show ?thesis
  proof (cases "length (it_entries it) \<le> it_pos it")
    case True
    from handleStreamMore_exhausted [OF it True, of b retPositions] assms it b True
    show ?thesis by (auto simp: exhausted_def int_cast_small)
  next
    case notdone: False
    then have less: "it_pos it < length (it_entries it)" by simp
    define n where
      "n = min (max 1 (os_capacity b - length (os_rows b))) (length (it_entries it) - it_pos it)"
    define r :: int where
      "r = (if os_capacity b \<le> length (os_rows b) + (length (it_entries it) - it_pos it)
            then 1 else 0)"
    define b' where
      "b' = b\<lparr>os_rows := os_rows b @ take n (drop (it_pos it) (it_entries it)),
               os_opens := os_opens b + 1, os_closes := os_closes b + 1\<rparr>"
    from less have "0 < length (it_entries it) - it_pos it" by simp
    then have fills:
      "(os_capacity b \<le> length (os_rows b) + n)
         = (os_capacity b \<le> length (os_rows b) + (length (it_entries it) - it_pos it))"
      unfolding n_def by (rule fills_within_rest)
    have npos: "0 < n" and nle: "it_pos it + n \<le> length (it_entries it)"
      unfolding n_def using less by simp_all
    have nrest: "r = 0 \<Longrightarrow> it_pos it + n = length (it_entries it)"
      unfolding n_def r_def using less by (simp split: if_splits)
    have taken: "min (length (it_entries it) - it_pos it) n = n"
      using nle by simp
    have res: "handleStreamMore c [b] retPositions =
           (r, c\<lparr>m_iter := Some (it\<lparr>it_pos := it_pos it + n\<rparr>),
                  m_materialized := (m_materialized c \<or> r = 0)\<rparr>,
            [b'], retPositions @ [int_cast (position b')])"
      using handleStreamMore_exact [OF it less, of b retPositions]
      unfolding Let_def n_def [symmetric] fills r_def [symmetric] b'_def [symmetric] .
    from assms have "(r, c\<lparr>m_iter := Some (it\<lparr>it_pos := it_pos it + n\<rparr>),
                  m_materialized := (m_materialized c \<or> r = 0)\<rparr>,
            [b'], retPositions @ [int_cast (position b')])
          = (remaining, c', outs', retPositions')"
      unfolding b res .
    then have rem: "remaining = r"
      and c': "c' = c\<lparr>m_iter := Some (it\<lparr>it_pos := it_pos it + n\<rparr>),
                  m_materialized := (m_materialized c \<or> r = 0)\<rparr>"
      and outs': "outs' = [b']"
      and rp': "retPositions' = retPositions @ [int_cast (position b')]"
      unfolding prod.inject by blast+
    have r01: "r = 1 \<or> r = 0" by (simp add: r_def)
    have rfull: "(r = 1) = (os_capacity b \<le> length (os_rows b) + (length (it_entries it) - it_pos it))"
      by (simp add: r_def)
    have rzero: "(r = 0) = (length (os_rows b) + (length (it_entries it) - it_pos it) < os_capacity b)"
      by (simp add: r_def)
    have g1: "remaining = 1 \<or> remaining = 0 \<or> remaining = - 1"
      using r01 rem by blast
    have rne: "remaining \<noteq> - 1" using r01 rem by auto
    have g2: "(remaining = - 1) = (m_iter c = None \<or> length outputStreams \<noteq> 1)"
      using rne it b by simp
    have g3: "remaining = - 1 \<longrightarrow>
           c' = c \<and> outs' = outputStreams \<and> retPositions' = retPositions"
      using rne by simp
    have g4a: "(remaining = 0) =
                    (exhausted it
                     \<or> length (os_rows b) + (length (it_entries it) - it_pos it) < os_capacity b)"
      using rzero notdone by (simp add: rem exhausted_def)
    have g4b: "(remaining = 1) =
                    (\<not> exhausted it
                     \<and> os_capacity b \<le> length (os_rows b) + (length (it_entries it) - it_pos it))"
      using rfull notdone by (simp add: rem exhausted_def)
    have g4c: "exhausted it \<longrightarrow> m_iter c' = Some it \<and> outs' = outputStreams"
      using notdone by (simp add: exhausted_def)
    have g4d: "\<not> exhausted it \<longrightarrow>
                    (let n = min (max 1 (os_capacity b - length (os_rows b)))
                                 (length (it_entries it) - it_pos it)
                     in m_iter c' = Some (it\<lparr>it_pos := it_pos it + n\<rparr>)
                        \<and> outs' = [b\<lparr>os_rows := os_rows b
                                                  @ take n (drop (it_pos it) (it_entries it)),
                                      os_opens := os_opens b + 1,
                                      os_closes := os_closes b + 1\<rparr>])"
      unfolding Let_def n_def [symmetric] b'_def [symmetric]
      by (simp add: c' outs')
    have g4: "remaining \<noteq> - 1 \<longrightarrow>
           (\<exists>it b. m_iter c = Some it \<and> outputStreams = [b]
              \<and> (remaining = 0) =
                    (exhausted it
                     \<or> length (os_rows b) + (length (it_entries it) - it_pos it) < os_capacity b)
              \<and> (remaining = 1) =
                    (\<not> exhausted it
                     \<and> os_capacity b \<le> length (os_rows b) + (length (it_entries it) - it_pos it))
              \<and> (exhausted it \<longrightarrow> m_iter c' = Some it \<and> outs' = outputStreams)
              \<and> (\<not> exhausted it \<longrightarrow>
                    (let n = min (max 1 (os_capacity b - length (os_rows b)))
                                 (length (it_entries it) - it_pos it)
                     in m_iter c' = Some (it\<lparr>it_pos := it_pos it + n\<rparr>)
                        \<and> outs' = [b\<lparr>os_rows := os_rows b
                                                  @ take n (drop (it_pos it) (it_entries it)),
                                      os_opens := os_opens b + 1,
                                      os_closes := os_closes b + 1\<rparr>])))"
      using it b g4a g4b g4c g4d by blast
    have g5: "m_materialized c' = (m_materialized c \<or> remaining = 0)"
      by (simp add: c' rem)
    have g6: "remaining = 0 \<longrightarrow> (\<exists>it'. m_iter c' = Some it' \<and> exhausted it')"
      using nrest by (simp add: c' rem exhausted_def)
    have g7: "remaining = 1 \<longrightarrow> os_capacity (outs' ! 0) \<le> length (os_rows (outs' ! 0))"
      using rfull fills by (simp add: outs' rem b'_def taken)
    have g8: "length outputStreams = 1 \<and> (\<exists>it'. m_iter c' = Some it' \<and> \<not> exhausted it')
           \<longrightarrow> remaining = 1"
      using r01 nrest by (auto simp: c' rem exhausted_def)
    have g9: "remaining \<noteq> - 1 \<longrightarrow>
           length outs' = 1
           \<and> retPositions' = retPositions @ [int_cast (position (outs' ! 0))]
           \<and> (position (outs' ! 0) < 2 ^ 31 \<longrightarrow>
                 retPositions' = retPositions @ [int (position (outs' ! 0))])"
      by (simp add: outs' rp' int_cast_small)
    show ?thesis
      by (intro conjI) (rule g1, rule g2, rule g3, rule g4, rule g5, rule g6, rule g7,
                        rule g8, rule g9)
  qed
qed

theorem handleStreamMore_result_contract_witness:
  "handleStreamMore (example_context\<lparr>m_iter := Some (example_iterator 0)\<rparr>) [example_buffer 1] []
     = (1, example_context\<lparr>m_iter := Some (example_iterator 1)\<rparr>,
        [\<lparr>os_capacity = 1, os_rows = [\<lparr>t_address = 1, t_hash = 12\<rparr>],
          os_opens = 1, os_closes = 1\<rparr>], [1])
   \<and> \<not> exhausted (example_iterator 1)
   \<and> handleStreamMore (example_context\<lparr>m_iter := Some (example_iterator 0)\<rparr>) [example_buffer 2] []
     = (1, example_context\<lparr>m_iter := Some (example_iterator 2)\<rparr>,
        [\<lparr>os_capacity = 2,
          os_rows = [\<lparr>t_address = 1, t_hash = 12\<rparr>, \<lparr>t_address = 2, t_hash = 15\<rparr>],
          os_opens = 1, os_closes = 1\<rparr>], [2])
   \<and> handleStreamMore (example_context\<lparr>m_iter := Some (example_iterator 0)\<rparr>) [example_buffer 5] []
     = (0, example_context\<lparr>m_iter := Some (example_iterator 2), m_materialized := True\<rparr>,
        [\<lparr>os_capacity = 5,
          os_rows = [\<lparr>t_address = 1, t_hash = 12\<rparr>, \<lparr>t_address = 2, t_hash = 15\<rparr>],
          os_opens = 1, os_closes = 1\<rparr>], [2])
   \<and> exhausted (example_iterator 2)
   \<and> handleStreamMore example_context [example_buffer 1] []
     = (- 1, example_context, [example_buffer 1], [])
   \<and> m_iter example_context = None"
proof -
  have e: "handleStreamMore example_context [example_buffer 1] []
             = (- 1, example_context, [example_buffer 1], [])"
    by code_simp
  from handleStreamMore_result_contract [OF example_stream_1]
    handleStreamMore_result_contract [OF example_stream_boundary]
    handleStreamMore_result_contract [OF example_stream_all]
    handleStreamMore_result_contract [OF e]
  show ?thesis
    using example_stream_1 example_stream_boundary example_stream_all e
    by (simp add: exhausted_def example_iterator_def)
qed

text \<open>
  The claim as written fails where the buffer fills on the last tuple of the range: the
  call returns 1 although no tuple remains, the iterator stands at its end, and
  \<^verbatim>\<open>m_materialized\<close> is still false. The result 0 comes with the following call.
\<close>

theorem handleStreamMore_result_counterexample:
  "handleStreamMore (example_context\<lparr>m_iter := Some (example_iterator 0)\<rparr>) [example_buffer 2] []
     = (1, example_context\<lparr>m_iter := Some (example_iterator 2)\<rparr>,
        [\<lparr>os_capacity = 2,
          os_rows = [\<lparr>t_address = 1, t_hash = 12\<rparr>, \<lparr>t_address = 2, t_hash = 15\<rparr>],
          os_opens = 1, os_closes = 1\<rparr>], [2])
   \<and> exhausted (example_iterator 2)
   \<and> it_entries (example_iterator 2) = it_entries (example_iterator 0)
   \<and> \<not> m_materialized (example_context\<lparr>m_iter := Some (example_iterator 2)\<rparr>)
   \<and> handleStreamMore (example_context\<lparr>m_iter := Some (example_iterator 2)\<rparr>) [example_buffer 2] [2]
     = (0, example_context\<lparr>m_iter := Some (example_iterator 2), m_materialized := True\<rparr>,
        [example_buffer 2], [2, 0])"
  by code_simp

subsection \<open>Streaming past the end\<close>

lemma handleStreamMore_done:
  assumes "handleStreamMore c outs rp = (0, c', outs', rp')"
  shows "m_materialized c' \<and> (\<exists>it'. m_iter c' = Some it' \<and> exhausted it')"
proof (cases "m_iter c = None \<or> length outs \<noteq> 1")
  case True
  from handleStreamMore_error [OF this, of rp] assms show ?thesis by simp
next
  case False
  then obtain it b where it: "m_iter c = Some it" and b: "outs = [b]"
    by (cases outs) auto
  show ?thesis
  proof (cases "length (it_entries it) \<le> it_pos it")
    case True
    from handleStreamMore_exhausted [OF it True, of b rp] assms it b True
    show ?thesis by (auto simp: exhausted_def)
  next
    case False
    then have "it_pos it < length (it_entries it)" by simp
    from handleStreamMore_stream [OF it this, of b rp] assms b
    show ?thesis by (auto simp: exhausted_def)
  qed
qed

text \<open>
  C10. After a call of \<^verbatim>\<open>handleStreamMore\<close> has returned 0, a further call on the
  resulting context with exactly one output stream returns 0 again. It leaves the output
  stream as it was passed (no row is written, the stream is not opened), it appends the
  current position of the stream to \<^verbatim>\<open>retPositions\<close>, and the context, with
  \<^verbatim>\<open>m_materialized\<close> true, is unchanged.
\<close>

theorem handleStreamMore_after_done:
  assumes "handleStreamMore c0 outs0 rp0 = (0, c, outs1, rp1)"
      and "length outputStreams = 1"
  shows "handleStreamMore c outputStreams retPositions =
           (0, c, outputStreams, retPositions @ [int_cast (position (outputStreams ! 0))])
         \<and> m_materialized c"
proof -
  from handleStreamMore_done [OF assms(1)] obtain it where
    m: "m_materialized c" and it: "m_iter c = Some it" and ex: "exhausted it"
    by blast
  from assms(2) obtain b where b: "outputStreams = [b]"
    by (cases outputStreams) auto
  from ex have "length (it_entries it) \<le> it_pos it" by (simp add: exhausted_def)
  from handleStreamMore_exhausted [OF it this, of b retPositions] m b
  show ?thesis by simp
qed

theorem handleStreamMore_after_done_witness:
  "handleStreamMore (example_context\<lparr>m_iter := Some (example_iterator 0)\<rparr>) [example_buffer 5] []
     = (0, example_context\<lparr>m_iter := Some (example_iterator 2), m_materialized := True\<rparr>,
        [\<lparr>os_capacity = 5,
          os_rows = [\<lparr>t_address = 1, t_hash = 12\<rparr>, \<lparr>t_address = 2, t_hash = 15\<rparr>],
          os_opens = 1, os_closes = 1\<rparr>], [2])
   \<and> length [example_buffer 3] = 1
   \<and> handleStreamMore
        (example_context\<lparr>m_iter := Some (example_iterator 2), m_materialized := True\<rparr>)
        [example_buffer 3] [2]
     = (0, example_context\<lparr>m_iter := Some (example_iterator 2), m_materialized := True\<rparr>,
        [example_buffer 3], [2, 0])"
proof -
  have l: "length [example_buffer 3] = 1" by simp
  have p: "int_cast (position (example_buffer 3)) = 0"
    by (simp add: int_cast_def position_def example_buffer_def)
  from handleStreamMore_after_done [OF example_stream_all l, of "[2]"] p
  show ?thesis
    using example_stream_all by simp
qed

subsection \<open>The gate of the clear phase\<close>

text \<open>
  C3. On a context whose flag \<^verbatim>\<open>m_materialized\<close> is false, the activation of the clear
  stream returns \<^verbatim>\<open>ACTIVATION_FAILED\<close> and returns the context as it was: no tuple is
  deleted from the table, and no other part of the state changes.
\<close>

theorem clear_before_materialized_fails:
  "\<not> m_materialized c
   \<Longrightarrow> handleActivation TABLE_STREAM_ELASTIC_INDEX_CLEAR reactivate c = Inr (ACTIVATION_FAILED, c)"
  by (simp add: handleActivation_def)

theorem clear_before_materialized_fails_witness:
  "\<not> m_materialized (example_context\<lparr>m_iter := Some (example_iterator 1)\<rparr>)
   \<and> handleActivation TABLE_STREAM_ELASTIC_INDEX_CLEAR False
        (example_context\<lparr>m_iter := Some (example_iterator 1)\<rparr>)
      = Inr (ACTIVATION_FAILED, example_context\<lparr>m_iter := Some (example_iterator 1)\<rparr>)"
proof -
  have a: "\<not> m_materialized (example_context\<lparr>m_iter := Some (example_iterator 1)\<rparr>)"
    by (simp add: example_simps)
  show ?thesis
    using a clear_before_materialized_fails [OF a, of False] by simp
qed

subsection \<open>The flag \<^verbatim>\<open>m_materialized\<close>\<close>

lemma handleStreamMore_materialized:
  assumes "handleStreamMore c outs rp = (r, c', outs', rp')"
  shows "m_materialized c' = (m_materialized c \<or> r = 0)"
proof (cases "m_iter c = None \<or> length outs \<noteq> 1")
  case True
  from handleStreamMore_error [OF this, of rp] assms show ?thesis by auto
next
  case False
  then obtain it b where it: "m_iter c = Some it" and b: "outs = [b]"
    by (cases outs) auto
  show ?thesis
  proof (cases "length (it_entries it) \<le> it_pos it")
    case True
    from handleStreamMore_exhausted [OF it True, of b rp] assms b show ?thesis by auto
  next
    case False
    then have "it_pos it < length (it_entries it)" by simp
    from handleStreamMore_stream [OF it this, of b rp] assms b show ?thesis
      by auto
  qed
qed

lemma deleteStreamedTuples_materialized:
  "deleteStreamedTuples c = Inr c' \<Longrightarrow> m_materialized c' = m_materialized c"
  by (auto simp: deleteStreamedTuples_def Let_def split: option.splits prod.splits)

lemma handleActivation_materialized:
  "handleActivation streamType reactivate c = Inr (code, c')
   \<Longrightarrow> m_materialized c' = m_materialized c"
  by (auto simp: handleActivation_def split: if_splits option.splits sum.splits
           dest: deleteStreamedTuples_materialized)

lemma step_materialized:
  "step x c = Some c' \<Longrightarrow> m_materialized c \<Longrightarrow> m_materialized c'"
  by (cases x)
     (auto split: sum.splits prod.splits
           dest: handleActivation_materialized deleteStreamedTuples_materialized
                 handleStreamMore_materialized)

lemma run_materialized:
  "m_materialized c \<Longrightarrow> x \<in> set (run c ops) \<Longrightarrow> m_materialized x"
proof (induction ops arbitrary: c)
  case Nil
  then show ?case by simp
next
  case (Cons a ops)
  show ?case
  proof (cases "step a c")
    case None
    with Cons.prems show ?thesis by simp
  next
    case (Some c')
    from step_materialized [OF Some Cons.prems(1)] have "m_materialized c'" .
    from Cons.IH [OF this] Cons.prems Some show ?thesis by auto
  qed
qed

lemma run_sorted: "sorted (map m_materialized (run c ops))"
proof (induction ops arbitrary: c)
  case Nil
  then show ?case by simp
next
  case (Cons a ops)
  show ?case
  proof (cases "step a c")
    case None
    then show ?thesis by simp
  next
    case (Some c')
    have "\<forall>x \<in> set (run c' ops). m_materialized c \<longrightarrow> m_materialized x"
      using step_materialized [OF Some] run_materialized by blast
    with Some Cons.IH [of c'] show ?thesis by (auto simp: le_bool_def)
  qed
qed

text \<open>
  C5. The flag \<^verbatim>\<open>m_materialized\<close> is false after construction. The activation and
  \<^verbatim>\<open>deleteStreamedTuples\<close> leave it as it is (\<^verbatim>\<open>handleDeactivation\<close> does not touch
  the context at all); \<^verbatim>\<open>handleStreamMore\<close> leaves it true if it was true and otherwise
  sets it exactly when it returns 0. So no operation sets it back to false, and along every
  sequence of operations the values of the flag are sorted: false up to some point, true
  from there on, with at most one change.
\<close>

theorem materialized_set_once:
  "\<not> m_materialized (newElasticIndexReadContext surgeon partitionId predicateStrings)
   \<and> (handleActivation streamType reactivate c1 = Inr (code, c1')
        \<longrightarrow> m_materialized c1' = m_materialized c1)
   \<and> (deleteStreamedTuples c2 = Inr c2' \<longrightarrow> m_materialized c2' = m_materialized c2)
   \<and> (handleStreamMore c3 outputStreams retPositions = (remaining, c3', outs', retPositions')
        \<longrightarrow> m_materialized c3' = (m_materialized c3 \<or> remaining = 0))
   \<and> (step x c4 = Some c4' \<and> m_materialized c4 \<longrightarrow> m_materialized c4')
   \<and> sorted (map m_materialized (run c5 ops))"
  using handleActivation_materialized [of streamType reactivate c1 code c1']
    deleteStreamedTuples_materialized [of c2 c2']
    handleStreamMore_materialized [of c3 outputStreams retPositions remaining c3' outs' retPositions']
    step_materialized [of x c4 c4'] run_sorted [of c5 ops]
  by (simp add: newElasticIndexReadContext_def)

lemma example_delete:
  "deleteStreamedTuples
     (example_context\<lparr>m_iter := Some (example_iterator 2), m_materialized := True\<rparr>)
   = Inr (example_context
           \<lparr>m_surgeon := example_surgeon
              \<lparr>s_index := [\<lparr>t_address = 3, t_hash = 30\<rparr>],
               s_table := [\<lparr>t_address = 3, t_hash = 30\<rparr>],
               s_calls := [BulkDeleteTokenAcquired, IteratorReset,
                           DeleteTuple \<lparr>t_address = 1, t_hash = 12\<rparr>,
                           DeleteTuple \<lparr>t_address = 2, t_hash = 15\<rparr>,
                           IteratorErase (ElasticIndexHashRange 10 20),
                           BulkDeleteTokenReleased]\<rparr>,
            m_iter := Some (example_iterator 0\<lparr>it_entries := []\<rparr>),
            m_materialized := True\<rparr>)"
  by code_simp

lemma example_deactivate:
  "step (Deactivate TABLE_STREAM_ELASTIC_INDEX_READ)
     (example_context\<lparr>m_iter := Some (example_iterator 2), m_materialized := True\<rparr>)
   = Some (example_context\<lparr>m_iter := Some (example_iterator 2), m_materialized := True\<rparr>)"
  by code_simp

lemma example_flags:
  "map m_materialized
        (run example_context
           [Activate TABLE_STREAM_ELASTIC_INDEX_READ False,
            StreamMore [example_buffer 1] [],
            StreamMore [example_buffer 1] [1],
            StreamMore [example_buffer 1] [1, 1],
            Deactivate TABLE_STREAM_ELASTIC_INDEX_READ,
            Activate TABLE_STREAM_ELASTIC_INDEX_CLEAR False])
      = [False, False, False, False, True, True, True]"
  by code_simp

theorem materialized_set_once_witness:
  "\<not> m_materialized example_context
   \<and> handleActivation TABLE_STREAM_ELASTIC_INDEX_READ False example_context
       = Inr (ACTIVATION_SUCCEEDED, example_context\<lparr>m_iter := Some (example_iterator 0)\<rparr>)
   \<and> \<not> m_materialized (example_context\<lparr>m_iter := Some (example_iterator 0)\<rparr>)
   \<and> handleStreamMore (example_context\<lparr>m_iter := Some (example_iterator 2)\<rparr>)
        [example_buffer 1] [1, 1]
       = (0, example_context\<lparr>m_iter := Some (example_iterator 2), m_materialized := True\<rparr>,
          [example_buffer 1], [1, 1, 0])
   \<and> \<not> m_materialized (example_context\<lparr>m_iter := Some (example_iterator 2)\<rparr>)
   \<and> m_materialized (example_context\<lparr>m_iter := Some (example_iterator 2), m_materialized := True\<rparr>)
   \<and> (\<exists>c'. deleteStreamedTuples
               (example_context\<lparr>m_iter := Some (example_iterator 2), m_materialized := True\<rparr>)
             = Inr c' \<and> m_materialized c')
   \<and> step (Deactivate TABLE_STREAM_ELASTIC_INDEX_READ)
        (example_context\<lparr>m_iter := Some (example_iterator 2), m_materialized := True\<rparr>)
       = Some (example_context\<lparr>m_iter := Some (example_iterator 2), m_materialized := True\<rparr>)
   \<and> map m_materialized
        (run example_context
           [Activate TABLE_STREAM_ELASTIC_INDEX_READ False,
            StreamMore [example_buffer 1] [],
            StreamMore [example_buffer 1] [1],
            StreamMore [example_buffer 1] [1, 1],
            Deactivate TABLE_STREAM_ELASTIC_INDEX_READ,
            Activate TABLE_STREAM_ELASTIC_INDEX_CLEAR False])
      = [False, False, False, False, True, True, True]
   \<and> sorted [False, False, False, False, True, True, True]"
proof -
  let ?c0 = "example_context\<lparr>m_iter := Some (example_iterator 0)\<rparr>"
  let ?c2 = "example_context\<lparr>m_iter := Some (example_iterator 2)\<rparr>"
  let ?cm = "example_context\<lparr>m_iter := Some (example_iterator 2), m_materialized := True\<rparr>"
  let ?cd = "example_context
           \<lparr>m_surgeon := example_surgeon
              \<lparr>s_index := [\<lparr>t_address = 3, t_hash = 30\<rparr>],
               s_table := [\<lparr>t_address = 3, t_hash = 30\<rparr>],
               s_calls := [BulkDeleteTokenAcquired, IteratorReset,
                           DeleteTuple \<lparr>t_address = 1, t_hash = 12\<rparr>,
                           DeleteTuple \<lparr>t_address = 2, t_hash = 15\<rparr>,
                           IteratorErase (ElasticIndexHashRange 10 20),
                           BulkDeleteTokenReleased]\<rparr>,
            m_iter := Some (example_iterator 0\<lparr>it_entries := []\<rparr>),
            m_materialized := True\<rparr>"
  let ?ops = "[Activate TABLE_STREAM_ELASTIC_INDEX_READ False,
            StreamMore [example_buffer 1] [],
            StreamMore [example_buffer 1] [1],
            StreamMore [example_buffer 1] [1, 1],
            Deactivate TABLE_STREAM_ELASTIC_INDEX_READ,
            Activate TABLE_STREAM_ELASTIC_INDEX_CLEAR False]"
  have m0: "\<not> m_materialized example_context"
    by (simp add: example_simps)
  have md: "m_materialized ?cd" by simp
  from materialized_set_once [of example_surgeon 0 "[''10:20'']"
      TABLE_STREAM_ELASTIC_INDEX_READ False example_context ACTIVATION_SUCCEEDED ?c0
      ?cm ?cd
      ?c2 "[example_buffer 1]" "[1, 1]" 0 ?cm "[example_buffer 1]" "[1, 1, 0]"
      "Deactivate TABLE_STREAM_ELASTIC_INDEX_READ" ?cm ?cm
      example_context ?ops]
  have "sorted (map m_materialized (run example_context ?ops))"
    and "m_materialized ?c0 = m_materialized example_context"
    using example_activation by simp_all
  with m0 md example_activation example_stream_3 example_delete example_deactivate example_flags
  show ?thesis by simp
qed

subsection \<open>Repeated activation of the read stream\<close>

text \<open>
  C1, as the code has it. After a read-stream activation has succeeded, a further
  read-stream activation with \<^verbatim>\<open>reactivate = false\<close> on a context with the same
  surgeon state and the same predicate strings succeeds again: it returns
  \<^verbatim>\<open>ACTIVATION_SUCCEEDED\<close> and replaces the iterator by a fresh one at the start of the
  range, changing nothing else. The rejection is keyed on the flag of the caller: with
  \<^verbatim>\<open>reactivate = true\<close> the read-stream activation returns \<^verbatim>\<open>ACTIVATION_FAILED\<close>
  and leaves the context unchanged.
\<close>

theorem second_read_activation_succeeds:
  assumes "handleActivation TABLE_STREAM_ELASTIC_INDEX_READ False c = Inr (ACTIVATION_SUCCEEDED, c1)"
      and "m_surgeon c2 = m_surgeon c1"
      and "m_predicateStrings c2 = m_predicateStrings c1"
  shows "handleActivation TABLE_STREAM_ELASTIC_INDEX_READ False c2
           = Inr (ACTIVATION_SUCCEEDED, c2\<lparr>m_iter := m_iter c1\<rparr>)
         \<and> handleActivation TABLE_STREAM_ELASTIC_INDEX_READ True c2 = Inr (ACTIVATION_FAILED, c2)"
  using assms
  by (auto simp: handleActivation_def split: if_splits option.splits)

theorem second_read_activation_succeeds_witness:
  "handleActivation TABLE_STREAM_ELASTIC_INDEX_READ False example_context
     = Inr (ACTIVATION_SUCCEEDED, example_context\<lparr>m_iter := Some (example_iterator 0)\<rparr>)
   \<and> handleActivation TABLE_STREAM_ELASTIC_INDEX_READ False
        (example_context\<lparr>m_iter := Some (example_iterator 1)\<rparr>)
     = Inr (ACTIVATION_SUCCEEDED, example_context\<lparr>m_iter := Some (example_iterator 0)\<rparr>)
   \<and> handleActivation TABLE_STREAM_ELASTIC_INDEX_READ True
        (example_context\<lparr>m_iter := Some (example_iterator 1)\<rparr>)
     = Inr (ACTIVATION_FAILED, example_context\<lparr>m_iter := Some (example_iterator 1)\<rparr>)"
  using example_activation
    second_read_activation_succeeds [OF example_activation,
      of "example_context\<lparr>m_iter := Some (example_iterator 1)\<rparr>"]
  by simp

text \<open>
  The claim as written fails on the example: the second activation of the read stream with
  \<^verbatim>\<open>reactivate = false\<close> returns \<^verbatim>\<open>ACTIVATION_SUCCEEDED\<close>, and after one buffer
  has been streamed it moves the iterator back to the start of the range.
\<close>

theorem second_read_activation_counterexample:
  "handleActivation TABLE_STREAM_ELASTIC_INDEX_READ False example_context
     = Inr (ACTIVATION_SUCCEEDED, example_context\<lparr>m_iter := Some (example_iterator 0)\<rparr>)
   \<and> handleActivation TABLE_STREAM_ELASTIC_INDEX_READ False
        (example_context\<lparr>m_iter := Some (example_iterator 0)\<rparr>)
     = Inr (ACTIVATION_SUCCEEDED, example_context\<lparr>m_iter := Some (example_iterator 0)\<rparr>)
   \<and> ACTIVATION_SUCCEEDED \<noteq> ACTIVATION_FAILED
   \<and> handleStreamMore (example_context\<lparr>m_iter := Some (example_iterator 0)\<rparr>)
        [example_buffer 1] []
     = (1, example_context\<lparr>m_iter := Some (example_iterator 1)\<rparr>,
        [\<lparr>os_capacity = 1, os_rows = [\<lparr>t_address = 1, t_hash = 12\<rparr>],
          os_opens = 1, os_closes = 1\<rparr>], [1])
   \<and> handleActivation TABLE_STREAM_ELASTIC_INDEX_READ False
        (example_context\<lparr>m_iter := Some (example_iterator 1)\<rparr>)
     = Inr (ACTIVATION_SUCCEEDED, example_context\<lparr>m_iter := Some (example_iterator 0)\<rparr>)
   \<and> example_context\<lparr>m_iter := Some (example_iterator 0)\<rparr>
       \<noteq> example_context\<lparr>m_iter := Some (example_iterator 1)\<rparr>"
  by code_simp

subsection \<open>The deletion of the streamed tuples\<close>

lemma filter_removeAll: "filter P (removeAll a xs) = filter (\<lambda>x. x \<noteq> a \<and> P x) xs"
  by (induction xs) auto

lemma deleteLoop_result:
  assumes "it_pos it \<le> length (it_entries it)"
  shows "deleteLoop it s =
           (it\<lparr>it_pos := length (it_entries it)\<rparr>,
            s\<lparr>s_table := filter (\<lambda>t. t \<notin> set (drop (it_pos it) (it_entries it))) (s_table s),
              s_calls := s_calls s @ map DeleteTuple (drop (it_pos it) (it_entries it))\<rparr>)"
  using assms
proof (induction it s rule: deleteLoop.induct)
  case (1 it s)
  show ?case
  proof (cases "it_pos it < length (it_entries it)")
    case False
    with 1(2) have "it_pos it = length (it_entries it)" by simp
    then show ?thesis
      by (subst deleteLoop.simps) (simp add: it_next_def)
  next
    case True
    let ?t = "it_entries it ! it_pos it"
    let ?it1 = "it\<lparr>it_pos := it_pos it + 1\<rparr>"
    have step: "deleteLoop it s = deleteLoop ?it1 (deleteTuple ?t s)"
      using True by (subst deleteLoop.simps) (simp add: it_next_def)
    have ih: "deleteLoop ?it1 (deleteTuple ?t s) =
           (?it1\<lparr>it_pos := length (it_entries ?it1)\<rparr>,
            (deleteTuple ?t s)\<lparr>s_table := filter (\<lambda>t. t \<notin> set (drop (it_pos ?it1) (it_entries ?it1)))
                                     (s_table (deleteTuple ?t s)),
              s_calls := s_calls (deleteTuple ?t s)
                           @ map DeleteTuple (drop (it_pos ?it1) (it_entries ?it1))\<rparr>)"
      by (rule 1(1) [of "Some ?t" ?it1 ?t])
         (use True in \<open>simp_all add: it_next_def\<close>)
    have d: "drop (it_pos it) (it_entries it) = ?t # drop (Suc (it_pos it)) (it_entries it)"
      using True by (simp add: Cons_nth_drop_Suc)
    show ?thesis
      unfolding step ih
      by (simp add: deleteTuple_def d filter_removeAll)
  qed
qed


lemma deleteStreamedTuples_result:
  assumes "m_iter c = Some it"
  shows "deleteStreamedTuples c =
     Inr (c\<lparr>m_surgeon := (m_surgeon c)
              \<lparr>s_index := filter (\<lambda>t. \<not> in_range (it_range it) (t_hash t)) (s_index (m_surgeon c)),
               s_table := filter (\<lambda>t. t \<notin> set (it_entries it)) (s_table (m_surgeon c)),
               s_calls := s_calls (m_surgeon c)
                  @ [BulkDeleteTokenAcquired, IteratorReset]
                  @ map DeleteTuple (it_entries it)
                  @ [IteratorErase (it_range it), BulkDeleteTokenReleased]\<rparr>,
            m_iter := Some (it\<lparr>it_entries := [], it_pos := 0\<rparr>)\<rparr>)"
proof -
  let ?s1 = "(getBulkDeleteToken (m_surgeon c))
               \<lparr>s_calls := s_calls (getBulkDeleteToken (m_surgeon c)) @ [IteratorReset]\<rparr>"
  have "it_pos (it_reset it) \<le> length (it_entries (it_reset it))"
    by (simp add: it_reset_def)
  from deleteLoop_result [OF this, of ?s1]
  show ?thesis
    using assms
    by (simp add: deleteStreamedTuples_def Let_def it_reset_def it_erase_def
          getBulkDeleteToken_def releaseBulkDeleteToken_def)
qed

lemma handleStreamMore_keeps_iterator:
  assumes "handleStreamMore c outs rp = (r, c', outs', rp')"
  shows "(m_iter c' = None) = (m_iter c = None)"
proof (cases "m_iter c = None \<or> length outs \<noteq> 1")
  case True
  from handleStreamMore_error [OF this, of rp] assms show ?thesis by auto
next
  case False
  then obtain it b where it: "m_iter c = Some it" and b: "outs = [b]"
    by (cases outs) auto
  show ?thesis
  proof (cases "length (it_entries it) \<le> it_pos it")
    case True
    from handleStreamMore_exhausted [OF it True, of b rp] assms b it show ?thesis by auto
  next
    case False
    then have "it_pos it < length (it_entries it)" by simp
    from handleStreamMore_stream [OF it this, of b rp] assms b it show ?thesis
      by auto
  qed
qed

lemma deleteStreamedTuples_iterator:
  "deleteStreamedTuples c = Inr c' \<Longrightarrow> m_iter c' \<noteq> None"
  by (auto simp: deleteStreamedTuples_def Let_def split: option.splits prod.splits)

lemma handleActivation_iterator:
  "handleActivation streamType reactivate c = Inr (code, c')
   \<Longrightarrow> m_materialized c \<longrightarrow> m_iter c \<noteq> None
   \<Longrightarrow> m_materialized c' \<longrightarrow> m_iter c' \<noteq> None"
  by (auto simp: handleActivation_def split: if_splits option.splits sum.splits
           dest: deleteStreamedTuples_iterator)

lemma step_iterator:
  assumes "step x c = Some c'" "m_materialized c \<longrightarrow> m_iter c \<noteq> None"
  shows "m_materialized c' \<longrightarrow> m_iter c' \<noteq> None"
proof (cases x)
  case (Activate streamType reactivate)
  with assms show ?thesis
    by (auto split: sum.splits dest: handleActivation_iterator)
next
  case (Deactivate streamType)
  with assms show ?thesis by (auto split: sum.splits)
next
  case (StreamMore outs rp)
  with assms(1) obtain r outs' rp' where
    h: "handleStreamMore c outs rp = (r, c', outs', rp')"
    by (auto split: prod.splits)
  show ?thesis
  proof (cases "m_iter c = None \<or> length outs \<noteq> 1")
    case True
    from handleStreamMore_error [OF this, of rp] h assms(2) show ?thesis by auto
  next
    case False
    with handleStreamMore_keeps_iterator [OF h] show ?thesis by auto
  qed
next
  case DeleteStreamedTuples
  with assms show ?thesis
    by (auto split: sum.splits dest: deleteStreamedTuples_iterator)
qed

lemma run_iterator:
  "m_materialized c \<longrightarrow> m_iter c \<noteq> None \<Longrightarrow> x \<in> set (run c ops)
   \<Longrightarrow> m_materialized x \<longrightarrow> m_iter x \<noteq> None"
proof (induction ops arbitrary: c)
  case Nil
  then show ?case by simp
next
  case (Cons a ops)
  show ?case
  proof (cases "step a c")
    case None
    with Cons.prems show ?thesis by simp
  next
    case (Some c')
    from step_iterator [OF Some Cons.prems(1)]
    have "m_materialized c' \<longrightarrow> m_iter c' \<noteq> None" .
    from Cons.IH [OF this] Cons.prems Some show ?thesis by auto
  qed
qed

text \<open>
  C6. On every context that a sequence of operations reaches from the constructor and whose
  flag \<^verbatim>\<open>m_materialized\<close> is true, the iterator exists, and the activation of the clear
  stream (the index being present and complete) returns \<^verbatim>\<open>ACTIVATION_SUCCEEDED\<close> after
  running \<^verbatim>\<open>deleteStreamedTuples\<close>: the storage layer receives, in this order, the
  acquisition of the bulk delete token, the reset of the iterator, one deletion for every
  entry of the range, the erasure of the range from the index, and the release of the
  token. Afterwards the table has lost the tuples of the range and the index its entries
  of the range.
\<close>

theorem clear_activation_deletes_streamed_tuples:
  assumes "c \<in> set (run (newElasticIndexReadContext surgeon partitionId predicateStrings) ops)"
      and "m_materialized c"
      and "s_hasIndex (m_surgeon c)" and "s_isIndexingComplete (m_surgeon c)"
  shows "\<exists>it. m_iter c = Some it
     \<and> handleActivation TABLE_STREAM_ELASTIC_INDEX_CLEAR reactivate c =
         Inr (ACTIVATION_SUCCEEDED,
           c\<lparr>m_surgeon := (m_surgeon c)
              \<lparr>s_index := filter (\<lambda>t. \<not> in_range (it_range it) (t_hash t)) (s_index (m_surgeon c)),
               s_table := filter (\<lambda>t. t \<notin> set (it_entries it)) (s_table (m_surgeon c)),
               s_calls := s_calls (m_surgeon c)
                  @ [BulkDeleteTokenAcquired, IteratorReset]
                  @ map DeleteTuple (it_entries it)
                  @ [IteratorErase (it_range it), BulkDeleteTokenReleased]\<rparr>,
            m_iter := Some (it\<lparr>it_entries := [], it_pos := 0\<rparr>)\<rparr>)"
proof -
  have "m_materialized (newElasticIndexReadContext surgeon partitionId predicateStrings)
          \<longrightarrow> m_iter (newElasticIndexReadContext surgeon partitionId predicateStrings) \<noteq> None"
    by (simp add: newElasticIndexReadContext_def)
  from run_iterator [OF this assms(1)] assms(2) obtain it where it: "m_iter c = Some it"
    by auto
  from deleteStreamedTuples_result [OF it] assms(2-4) it show ?thesis
    by (simp add: handleActivation_def)
qed

lemma example_run:
  "run example_context
     [Activate TABLE_STREAM_ELASTIC_INDEX_READ False, StreamMore [example_buffer 5] []]
   = [example_context,
      example_context\<lparr>m_iter := Some (example_iterator 0)\<rparr>,
      example_context\<lparr>m_iter := Some (example_iterator 2), m_materialized := True\<rparr>]"
  by code_simp

theorem clear_activation_deletes_streamed_tuples_witness:
  "example_context\<lparr>m_iter := Some (example_iterator 2), m_materialized := True\<rparr>
     \<in> set (run (newElasticIndexReadContext example_surgeon 0 [''10:20''])
              [Activate TABLE_STREAM_ELASTIC_INDEX_READ False, StreamMore [example_buffer 5] []])
   \<and> handleActivation TABLE_STREAM_ELASTIC_INDEX_CLEAR False
        (example_context\<lparr>m_iter := Some (example_iterator 2), m_materialized := True\<rparr>)
     = Inr (ACTIVATION_SUCCEEDED,
         example_context
           \<lparr>m_surgeon := example_surgeon
              \<lparr>s_index := [\<lparr>t_address = 3, t_hash = 30\<rparr>],
               s_table := [\<lparr>t_address = 3, t_hash = 30\<rparr>],
               s_calls := [BulkDeleteTokenAcquired, IteratorReset,
                           DeleteTuple \<lparr>t_address = 1, t_hash = 12\<rparr>,
                           DeleteTuple \<lparr>t_address = 2, t_hash = 15\<rparr>,
                           IteratorErase (ElasticIndexHashRange 10 20),
                           BulkDeleteTokenReleased]\<rparr>,
            m_iter := Some (example_iterator 0\<lparr>it_entries := []\<rparr>),
            m_materialized := True\<rparr>)"
proof -
  let ?c = "example_context\<lparr>m_iter := Some (example_iterator 2), m_materialized := True\<rparr>"
  have r: "?c \<in> set (run (newElasticIndexReadContext example_surgeon 0 [''10:20''])
              [Activate TABLE_STREAM_ELASTIC_INDEX_READ False, StreamMore [example_buffer 5] []])"
    using example_run by (simp add: example_context_def)
  have m: "m_materialized ?c" by simp
  have i: "s_hasIndex (m_surgeon ?c)" "s_isIndexingComplete (m_surgeon ?c)"
    by (simp_all add: example_simps)
  from clear_activation_deletes_streamed_tuples [OF r m i, of False] r
  show ?thesis
    by (simp add: example_simps)
qed

subsection \<open>Draining the range\<close>

lemma drain_from:
  assumes "m_iter c = Some it"
      and "it_pos it \<le> length (it_entries it)"
      and "length (it_entries it) - it_pos it < length buffers"
  shows "\<exists>rs ws c' rp'. drain c buffers rp = (rs, ws, c', rp')
     \<and> rs = replicate (length rs - 1) 1 @ [0]
     \<and> length rs \<le> length (it_entries it) - it_pos it + 1
     \<and> length ws = length rs
     \<and> concat ws = drop (it_pos it) (it_entries it)
     \<and> m_materialized c'
     \<and> m_iter c' = Some (it\<lparr>it_pos := length (it_entries it)\<rparr>)"
  using assms
proof (induction buffers arbitrary: c it rp)
  case Nil
  then show ?case by simp
next
  case (Cons b bs)
  show ?case
  proof (cases "it_pos it < length (it_entries it)")
    case False
    with Cons.prems(2) have eq: "it_pos it = length (it_entries it)" by simp
    then have "length (it_entries it) \<le> it_pos it" by simp
    from handleStreamMore_exhausted [OF Cons.prems(1) this, of b rp] eq Cons.prems(1)
    show ?thesis by simp
  next
    case True
    from handleStreamMore_stream [OF Cons.prems(1) True, of b rp]
    obtain n r b' where
      res: "handleStreamMore c [b] rp =
           (r, c\<lparr>m_iter := Some (it\<lparr>it_pos := it_pos it + n\<rparr>),
                 m_materialized := (m_materialized c \<or> r = 0)\<rparr>,
            [b'], rp @ [int_cast (position b')])"
      and b': "b' = b\<lparr>os_rows := os_rows b @ take n (drop (it_pos it) (it_entries it)),
                  os_opens := os_opens b + 1, os_closes := os_closes b + 1\<rparr>"
      and n: "0 < n" "it_pos it + n \<le> length (it_entries it)"
      and out: "(r = 0 \<and> it_pos it + n = length (it_entries it)
              \<and> \<not> os_capacity b \<le> length (os_rows b) + n)
             \<or> (r = 1 \<and> os_capacity b \<le> length (os_rows b) + n)"
      by blast
    have written: "drop (length (os_rows b)) (os_rows b') = take n (drop (it_pos it) (it_entries it))"
      by (simp add: b')
    from out show ?thesis
    proof
      assume "r = 0 \<and> it_pos it + n = length (it_entries it)
              \<and> \<not> os_capacity b \<le> length (os_rows b) + n"
      then have r: "r = 0" and full: "it_pos it + n = length (it_entries it)" by simp_all
      from full have "take n (drop (it_pos it) (it_entries it)) = drop (it_pos it) (it_entries it)"
        by simp
      with res r written full show ?thesis by simp
    next
      assume "r = 1 \<and> os_capacity b \<le> length (os_rows b) + n"
      then have r: "r = 1" by simp
      let ?it1 = "it\<lparr>it_pos := it_pos it + n\<rparr>"
      let ?c1 = "c\<lparr>m_iter := Some ?it1, m_materialized := (m_materialized c \<or> r = 0)\<rparr>"
      have p1: "m_iter ?c1 = Some ?it1" by simp
      have p2: "it_pos ?it1 \<le> length (it_entries ?it1)" using n by simp
      have p3: "length (it_entries ?it1) - it_pos ?it1 < length bs"
        using Cons.prems(3) n by simp
      from Cons.IH [OF p1 p2 p3, of "rp @ [int_cast (position b')]"]
      obtain rs ws c' rp' where
        d: "drain ?c1 bs (rp @ [int_cast (position b')]) = (rs, ws, c', rp')"
        and rs: "rs = replicate (length rs - 1) 1 @ [0]"
        and len: "length rs \<le> length (it_entries ?it1) - it_pos ?it1 + 1"
        and lws: "length ws = length rs"
        and ws: "concat ws = drop (it_pos ?it1) (it_entries ?it1)"
        and m: "m_materialized c'"
        and i: "m_iter c' = Some (?it1\<lparr>it_pos := length (it_entries ?it1)\<rparr>)"
        by blast
      from rs obtain k where k: "rs = replicate k 1 @ [0]" by blast
      have g1: "drain c (b # bs) rp =
              (1 # rs, take n (drop (it_pos it) (it_entries it)) # ws, c', rp')"
        using res r d written by simp
      have g2: "1 # rs = replicate (length (1 # rs) - 1) 1 @ [0]"
        by (simp add: k)
      have g3: "length (1 # rs) \<le> length (it_entries it) - it_pos it + 1"
        using len n by simp
      have g4: "length (take n (drop (it_pos it) (it_entries it)) # ws) = length (1 # rs)"
        using lws by simp
      have cat: "take n (drop (it_pos it) (it_entries it)) @ drop (it_pos it + n) (it_entries it)
                   = drop (it_pos it) (it_entries it)"
        by (metis add.commute append_take_drop_id drop_drop)
      have g5: "concat (take n (drop (it_pos it) (it_entries it)) # ws)
                  = drop (it_pos it) (it_entries it)"
        using ws cat by simp
      have g7: "m_iter c' = Some (it\<lparr>it_pos := length (it_entries it)\<rparr>)"
        using i by simp
      show ?thesis
        by (intro exI conjI) (rule g1, rule g2, rule g3, rule g4, rule g5, rule m, rule g7)
    qed
  qed
qed

lemma read_activation_iterator:
  assumes "handleActivation TABLE_STREAM_ELASTIC_INDEX_READ False c0 = Inr (ACTIVATION_SUCCEEDED, c)"
      and "parseHashRange (m_predicateStrings c0) = Some R"
  shows "m_iter c = Some \<lparr>it_range = R,
            it_entries = filter (\<lambda>t. in_range R (t_hash t)) (s_index (m_surgeon c0)), it_pos = 0\<rparr>"
  using assms
  by (auto simp: handleActivation_def getIndexTupleRangeIterator_def split: if_splits)

lemma handleStreamMore_depends_on_iterator:
  assumes "m_iter c1 = m_iter c2"
      and "handleStreamMore c1 outs rp = (r1, c1', outs1, rp1)"
      and "handleStreamMore c2 outs rp = (r2, c2', outs2, rp2)"
  shows "r1 = r2 \<and> outs1 = outs2 \<and> rp1 = rp2 \<and> m_iter c1' = m_iter c2'"
  using assms
  by (auto simp: handleStreamMore_def Let_def split: option.splits if_splits prod.splits)

text \<open>
  C2. Let the read stream be activated for the range \<open>R\<close> on a table whose index holds
  exactly the rows of the table, and let a caller drain the context with more buffers than
  there are rows in \<open>R\<close>, of any capacities. Then the calls of \<^verbatim>\<open>handleStreamMore\<close>
  return 1 up to the last one, which returns 0 and leaves \<^verbatim>\<open>m_materialized\<close> true; the
  rows written by the calls, one after the other, are the index entries of \<open>R\<close> in index
  order, and as a multiset they are the rows of the table whose hash lies in \<open>R\<close>, each as
  often as the table holds it. The iterator of the drained context is the activated one
  with its position at the end, and what a call returns, writes and leaves in the iterator
  depends on the context through \<^verbatim>\<open>m_iter\<close> only.
\<close>

theorem drain_completeness:
  assumes "handleActivation TABLE_STREAM_ELASTIC_INDEX_READ False c0 = Inr (ACTIVATION_SUCCEEDED, c)"
      and "parseHashRange (m_predicateStrings c0) = Some R"
      and "mset (s_index (m_surgeon c0)) = mset (s_table (m_surgeon c0))"
      and "length (filter (\<lambda>t. in_range R (t_hash t)) (s_table (m_surgeon c0))) < length buffers"
  shows "\<exists>rs ws c' rp'. drain c buffers retPositions = (rs, ws, c', rp')
     \<and> rs = replicate (length rs - 1) 1 @ [0]
     \<and> length ws = length rs
     \<and> concat ws = filter (\<lambda>t. in_range R (t_hash t)) (s_index (m_surgeon c0))
     \<and> mset (concat ws) = mset (filter (\<lambda>t. in_range R (t_hash t)) (s_table (m_surgeon c0)))
     \<and> m_materialized c'
     \<and> (\<exists>it. m_iter c = Some it \<and> m_iter c' = Some (it\<lparr>it_pos := length (it_entries it)\<rparr>))
     \<and> (\<forall>c1 c2 outs rp. m_iter c1 = m_iter c2 \<longrightarrow>
           fst (handleStreamMore c1 outs rp) = fst (handleStreamMore c2 outs rp)
           \<and> fst (snd (snd (handleStreamMore c1 outs rp))) = fst (snd (snd (handleStreamMore c2 outs rp)))
           \<and> m_iter (fst (snd (handleStreamMore c1 outs rp))) = m_iter (fst (snd (handleStreamMore c2 outs rp))))"
proof -
  let ?entries = "filter (\<lambda>t. in_range R (t_hash t)) (s_index (m_surgeon c0))"
  let ?it = "\<lparr>it_range = R, it_entries = ?entries, it_pos = 0\<rparr>"
  have it: "m_iter c = Some ?it"
    using assms(1,2) by (rule read_activation_iterator)
  have same: "mset ?entries = mset (filter (\<lambda>t. in_range R (t_hash t)) (s_table (m_surgeon c0)))"
    using assms(3) by simp
  then have "length ?entries = length (filter (\<lambda>t. in_range R (t_hash t)) (s_table (m_surgeon c0)))"
    by (rule mset_eq_length)
  with assms(4) have enough: "length (it_entries ?it) - it_pos ?it < length buffers" by simp
  have "it_pos ?it \<le> length (it_entries ?it)" by simp
  from drain_from [OF it this enough, of retPositions]
  obtain rs ws c' rp' where
    d: "drain c buffers retPositions = (rs, ws, c', rp')"
    and rs: "rs = replicate (length rs - 1) 1 @ [0]"
    and lws: "length ws = length rs"
    and ws: "concat ws = ?entries"
    and m: "m_materialized c'"
    and i: "m_iter c' = Some (?it\<lparr>it_pos := length (it_entries ?it)\<rparr>)"
    by auto
  from it i have pos: "\<exists>it. m_iter c = Some it
      \<and> m_iter c' = Some (it\<lparr>it_pos := length (it_entries it)\<rparr>)"
    by blast
  have dep: "\<forall>c1 c2 outs rp. m_iter c1 = m_iter c2 \<longrightarrow>
           fst (handleStreamMore c1 outs rp) = fst (handleStreamMore c2 outs rp)
           \<and> fst (snd (snd (handleStreamMore c1 outs rp))) = fst (snd (snd (handleStreamMore c2 outs rp)))
           \<and> m_iter (fst (snd (handleStreamMore c1 outs rp))) = m_iter (fst (snd (handleStreamMore c2 outs rp)))"
  proof (intro allI impI)
    fix c1 c2 :: ElasticIndexReadContext and outs rp
    assume e: "m_iter c1 = m_iter c2"
    obtain r1 c1' o1 p1 where h1: "handleStreamMore c1 outs rp = (r1, c1', o1, p1)"
      by (cases "handleStreamMore c1 outs rp") auto
    obtain r2 c2' o2 p2 where h2: "handleStreamMore c2 outs rp = (r2, c2', o2, p2)"
      by (cases "handleStreamMore c2 outs rp") auto
    from handleStreamMore_depends_on_iterator [OF e h1 h2] h1 h2
    show "fst (handleStreamMore c1 outs rp) = fst (handleStreamMore c2 outs rp)
           \<and> fst (snd (snd (handleStreamMore c1 outs rp))) = fst (snd (snd (handleStreamMore c2 outs rp)))
           \<and> m_iter (fst (snd (handleStreamMore c1 outs rp))) = m_iter (fst (snd (handleStreamMore c2 outs rp)))"
      by simp
  qed
  have mws: "mset (concat ws)
                = mset (filter (\<lambda>t. in_range R (t_hash t)) (s_table (m_surgeon c0)))"
    using same by (simp only: ws)
  show ?thesis
    by (rule exI [of _ rs], rule exI [of _ ws], rule exI [of _ c'], rule exI [of _ rp'])
       (intro conjI, rule d, rule rs, rule lws, rule ws, rule mws, rule m, rule pos, rule dep)
qed

theorem drain_completeness_witness:
  "handleActivation TABLE_STREAM_ELASTIC_INDEX_READ False example_context
     = Inr (ACTIVATION_SUCCEEDED, example_context\<lparr>m_iter := Some (example_iterator 0)\<rparr>)
   \<and> parseHashRange (m_predicateStrings example_context) = Some (ElasticIndexHashRange 10 20)
   \<and> mset (s_index (m_surgeon example_context)) = mset (s_table (m_surgeon example_context))
   \<and> filter (\<lambda>t. in_range (ElasticIndexHashRange 10 20) (t_hash t))
        (s_table (m_surgeon example_context))
      = [\<lparr>t_address = 1, t_hash = 12\<rparr>, \<lparr>t_address = 2, t_hash = 15\<rparr>]
   \<and> drain (example_context\<lparr>m_iter := Some (example_iterator 0)\<rparr>)
        [example_buffer 1, example_buffer 1, example_buffer 1] []
      = ([1, 1, 0],
         [[\<lparr>t_address = 1, t_hash = 12\<rparr>], [\<lparr>t_address = 2, t_hash = 15\<rparr>], []],
         example_context\<lparr>m_iter := Some (example_iterator 2), m_materialized := True\<rparr>,
         [1, 1, 0])
   \<and> (\<exists>rs ws c' rp'.
         drain (example_context\<lparr>m_iter := Some (example_iterator 0)\<rparr>)
           [example_buffer 1, example_buffer 1, example_buffer 1] [] = (rs, ws, c', rp')
         \<and> mset (concat ws) = mset [\<lparr>t_address = 1, t_hash = 12\<rparr>, \<lparr>t_address = 2, t_hash = 15\<rparr>]
         \<and> m_materialized c')"
proof -
  have p: "parseHashRange (m_predicateStrings example_context) = Some (ElasticIndexHashRange 10 20)"
    by (simp add: example_simps parse_simps)
  have i: "mset (s_index (m_surgeon example_context)) = mset (s_table (m_surgeon example_context))"
    by (simp add: example_simps)
  have f: "filter (\<lambda>t. in_range (ElasticIndexHashRange 10 20) (t_hash t))
        (s_table (m_surgeon example_context))
      = [\<lparr>t_address = 1, t_hash = 12\<rparr>, \<lparr>t_address = 2, t_hash = 15\<rparr>]"
    by (simp add: example_simps)
  have n: "length (filter (\<lambda>t. in_range (ElasticIndexHashRange 10 20) (t_hash t))
        (s_table (m_surgeon example_context)))
      < length [example_buffer 1, example_buffer 1, example_buffer 1]"
    unfolding f by simp
  have d: "drain (example_context\<lparr>m_iter := Some (example_iterator 0)\<rparr>)
        [example_buffer 1, example_buffer 1, example_buffer 1] []
      = ([1, 1, 0],
         [[\<lparr>t_address = 1, t_hash = 12\<rparr>], [\<lparr>t_address = 2, t_hash = 15\<rparr>], []],
         example_context\<lparr>m_iter := Some (example_iterator 2), m_materialized := True\<rparr>,
         [1, 1, 0])"
    by code_simp
  from drain_completeness [OF example_activation p i n, of "[]"]
  obtain rs ws c' rp' where
    "drain (example_context\<lparr>m_iter := Some (example_iterator 0)\<rparr>)
           [example_buffer 1, example_buffer 1, example_buffer 1] [] = (rs, ws, c', rp')"
    "mset (concat ws) = mset (filter (\<lambda>t. in_range (ElasticIndexHashRange 10 20) (t_hash t))
        (s_table (m_surgeon example_context)))"
    "m_materialized c'"
    by blast
  then have "\<exists>rs ws c' rp'.
         drain (example_context\<lparr>m_iter := Some (example_iterator 0)\<rparr>)
           [example_buffer 1, example_buffer 1, example_buffer 1] [] = (rs, ws, c', rp')
         \<and> mset (concat ws) = mset [\<lparr>t_address = 1, t_hash = 12\<rparr>, \<lparr>t_address = 2, t_hash = 15\<rparr>]
         \<and> m_materialized c'"
    unfolding f by blast
  with example_activation p i f d show ?thesis by blast
qed

end
